theory Spec2Isabelle
  imports Main "HOL-Library.AList"
begin

section \<open>control-samsung-tv: discovery, device cache and key decoder\<close>

text \<open>
  A shallow embedding of \<^verbatim>\<open>control-samsung-tv.ts\<close>. JavaScript strings are
  modelled as \<^typ>\<open>string\<close>, one \<^typ>\<open>char\<close> per code unit: the strings of code
  units below 256, that is ASCII and the Latin-1 supplement, which is more than SSDP
  replies, UPnP descriptors and terminal key strokes are made of. On these strings
  \<^verbatim>\<open>toUpperCase\<close>, \<^verbatim>\<open>trim\<close> and the classes \<^verbatim>\<open>\s\<close> and \<^verbatim>\<open>.\<close> below are the
  JavaScript ones; an upper case is a list of code units as numbers, two capitals
  being beyond 255. Everything the program gets from outside (the datagrams,
  the outcome of \<^verbatim>\<open>fetch\<close>, the outcome of reading and parsing the cache file, the
  bytes read from the terminal) is an argument of the model.
\<close>

subsection \<open>Characters and strings\<close>

definition NUL :: char where "NUL = CHR 0x00"
definition ETX :: char where "ETX = CHR 0x03"
definition LF :: char where "LF = CHR 0x0A"
definition CR :: char where "CR = CHR 0x0D"
definition ESC :: char where "ESC = CHR 0x1B"
definition DEL :: char where "DEL = CHR 0x7F"

text \<open>The code units of a string, as numbers.\<close>

definition code_units :: "string \<Rightarrow> nat list" where
  "code_units s = map of_char s"

text \<open>
  \<^verbatim>\<open>String.prototype.toUpperCase\<close>, code unit by code unit. The letters \<open>a\<close> to \<open>z\<close>
  and the Latin-1 letters 0xE0 to 0xFE (the division sign 0xF7 apart) have their
  capital 0x20 below; the sharp s 0xDF becomes \<open>SS\<close>; the capital of the micro sign
  0xB5 is U+039C and that of the y with diaeresis 0xFF is U+0178; every other code
  unit below 256 is its own capital.
\<close>

definition lower_letters :: string where
  "lower_letters =
     ''abcdefghijklmnopqrstuvwxyz'' @
     [CHR 0xE0, CHR 0xE1, CHR 0xE2, CHR 0xE3, CHR 0xE4, CHR 0xE5, CHR 0xE6, CHR 0xE7,
      CHR 0xE8, CHR 0xE9, CHR 0xEA, CHR 0xEB, CHR 0xEC, CHR 0xED, CHR 0xEE, CHR 0xEF,
      CHR 0xF0, CHR 0xF1, CHR 0xF2, CHR 0xF3, CHR 0xF4, CHR 0xF5, CHR 0xF6, CHR 0xF8,
      CHR 0xF9, CHR 0xFA, CHR 0xFB, CHR 0xFC, CHR 0xFD, CHR 0xFE]"

definition upper_letters :: string where
  "upper_letters =
     ''ABCDEFGHIJKLMNOPQRSTUVWXYZ'' @
     [CHR 0xC0, CHR 0xC1, CHR 0xC2, CHR 0xC3, CHR 0xC4, CHR 0xC5, CHR 0xC6, CHR 0xC7,
      CHR 0xC8, CHR 0xC9, CHR 0xCA, CHR 0xCB, CHR 0xCC, CHR 0xCD, CHR 0xCE, CHR 0xCF,
      CHR 0xD0, CHR 0xD1, CHR 0xD2, CHR 0xD3, CHR 0xD4, CHR 0xD5, CHR 0xD6, CHR 0xD8,
      CHR 0xD9, CHR 0xDA, CHR 0xDB, CHR 0xDC, CHR 0xDD, CHR 0xDE]"

definition upper_units :: "char \<Rightarrow> nat list" where
  "upper_units c =
    (if c = CHR 0xDF then code_units ''SS''
     else if c = CHR 0xB5 then [0x39C]
     else if c = CHR 0xFF then [0x178]
     else (case map_of (zip lower_letters upper_letters) c of
             Some u \<Rightarrow> [of_char u]
           | None \<Rightarrow> [of_char c]))"

definition toUpperCase :: "string \<Rightarrow> nat list" where
  "toUpperCase s = concat (map upper_units s)"

text \<open>
  The \<^verbatim>\<open>Canonicalize\<close> of a regular expression with the flag \<^verbatim>\<open>i\<close> and without the
  flag \<^verbatim>\<open>u\<close>: the upper case of the code unit when that is one code unit, unless the
  code unit is 128 or more and its upper case below 128; the code unit itself
  otherwise.
\<close>

definition canonicalize :: "char \<Rightarrow> nat" where
  "canonicalize c =
    (case upper_units c of
       [u] \<Rightarrow> if 128 \<le> (of_char c :: nat) \<and> u < 128 then of_char c else u
     | _ \<Rightarrow> of_char c)"

text \<open>White space, as \<^verbatim>\<open>trim\<close> and the regular expression class \<^verbatim>\<open>\s\<close> see it, below
  256: TAB, LF, VT, FF, CR, the space and the no-break space 0xA0.\<close>

definition is_space :: "char \<Rightarrow> bool" where
  "is_space c \<longleftrightarrow> c \<in> {CHR 0x09, LF, CHR 0x0B, CHR 0x0C, CR, CHR '' '', CHR 0xA0}"

definition trim :: "string \<Rightarrow> string" where
  "trim s = rev (dropWhile is_space (rev (dropWhile is_space s)))"

text \<open>The same on lists of code units, to say what \<^verbatim>\<open>trim\<close> does under
  \<^verbatim>\<open>toUpperCase\<close>.\<close>

definition is_space_unit :: "nat \<Rightarrow> bool" where
  "is_space_unit u \<longleftrightarrow> u < 256 \<and> is_space (char_of u)"

definition trim_units :: "nat list \<Rightarrow> nat list" where
  "trim_units us = rev (dropWhile is_space_unit (rev (dropWhile is_space_unit us)))"

text \<open>\<^verbatim>\<open>s.indexOf(c)\<close>: the index of the first \<open>c\<close>, or \<open>-1\<close>.\<close>

fun indexOf :: "string \<Rightarrow> char \<Rightarrow> int" where
  "indexOf [] c = - 1"
| "indexOf (x # xs) c =
    (if x = c then 0 else (let i = indexOf xs c in if i < 0 then - 1 else i + 1))"

text \<open>\<^verbatim>\<open>s.substring(b, e)\<close> and \<^verbatim>\<open>s.substring(b)\<close>, for \<open>0 \<le> b \<le> e\<close> as the program
  calls them.\<close>

definition substring :: "string \<Rightarrow> int \<Rightarrow> int \<Rightarrow> string" where
  "substring s b e = drop (nat b) (take (nat e) s)"

definition substring_from :: "string \<Rightarrow> int \<Rightarrow> string" where
  "substring_from s b = drop (nat b) s"

text \<open>\<^verbatim>\<open>s.split(c)\<close> for a one-character separator: never empty, \<^verbatim>\<open>"".split("\n")\<close>
  is \<^verbatim>\<open>[""]\<close>.\<close>

fun split_on :: "string \<Rightarrow> char \<Rightarrow> string list" where
  "split_on [] c = [[]]"
| "split_on (x # xs) c =
    (if x = c then [] # split_on xs c
     else (case split_on xs c of [] \<Rightarrow> [[x]] | l # ls \<Rightarrow> (x # l) # ls))"

text \<open>\<open>starts_with p s\<close>: the pattern text \<open>p\<close> matches at the start of \<open>s\<close>;
  \<open>starts_with_ci\<close> is the same under the \<^verbatim>\<open>i\<close> flag.\<close>

definition starts_with :: "string \<Rightarrow> string \<Rightarrow> bool" where
  "starts_with p s \<longleftrightarrow> take (length p) s = p"

definition starts_with_ci :: "string \<Rightarrow> string \<Rightarrow> bool" where
  "starts_with_ci p s \<longleftrightarrow>
     length p \<le> length s \<and> map canonicalize (take (length p) s) = map canonicalize p"

text \<open>\<^verbatim>\<open>s.includes(sub)\<close>.\<close>

fun includes_str :: "string \<Rightarrow> string \<Rightarrow> bool" where
  "includes_str [] sub \<longleftrightarrow> sub = []"
| "includes_str (c # cs) sub \<longleftrightarrow> starts_with sub (c # cs) \<or> includes_str cs sub"

subsection \<open>Discovery: the \<^verbatim>\<open>message\<close> handler of \<^verbatim>\<open>getSamsungDevices\<close> (lines 59-94)\<close>

text \<open>The interface \<^verbatim>\<open>DeviceInfo\<close>. The handler can store \<^verbatim>\<open>undefined\<close> in
  \<^verbatim>\<open>friendlyName\<close> (line 80), which is \<open>None\<close> here.\<close>

record DeviceInfo =
  friendlyName :: "string option"
  ip :: string
  mac :: string

text \<open>What a call that can throw did: \<^verbatim>\<open>await (await fetch(url)).text()\<close>, and the
  \<^verbatim>\<open>JSON.parse(await readFile(...))\<close> of the cache.\<close>

datatype 'a attempt = Threw | Returned 'a

text \<open>Lines 63-70: the header lines into \<^verbatim>\<open>obj\<close>, a later line replacing an earlier
  one of the same key. A key of \<^verbatim>\<open>obj\<close> is an upper case, so a list of code units.\<close>

definition header_line :: "string \<Rightarrow> (nat list \<rightharpoonup> string) \<Rightarrow> (nat list \<rightharpoonup> string)" where
  "header_line line obj =
    (let spos = indexOf line (CHR '':'') in
     if spos < 0 then obj
     else (let key = toUpperCase (trim (substring line 0 spos));
               value = trim (substring_from line (spos + 1))
           in obj(key \<mapsto> value)))"

definition parse_lines :: "string list \<Rightarrow> (nat list \<rightharpoonup> string)" where
  "parse_lines ls = fold header_line ls Map.empty"

definition parse_headers :: "string \<Rightarrow> (nat list \<rightharpoonup> string)" where
  "parse_headers response = parse_lines (split_on response LF)"

text \<open>
  Line 79-80: \<^verbatim>\<open>[...result.matchAll(/<friendlyName>(.*?)<\/friendlyName>/ig)]?.[0]?.[1]\<close>,
  group 1 of the leftmost match, or \<^verbatim>\<open>undefined\<close>. \<open>lazy_dot_until\<close> is \<^verbatim>\<open>(.*?)\<close>
  followed by the closing tag: the shortest run of characters other than line
  terminators after which the closing tag matches. Below 256 the line terminators
  are LF and CR.
\<close>

definition line_terminator :: "char \<Rightarrow> bool" where
  "line_terminator c \<longleftrightarrow> c = LF \<or> c = CR"

fun lazy_dot_until :: "string \<Rightarrow> string \<Rightarrow> string option" where
  "lazy_dot_until close [] = (if starts_with_ci close [] then Some [] else None)"
| "lazy_dot_until close (c # cs) =
    (if starts_with_ci close (c # cs) then Some []
     else if line_terminator c then None
     else map_option ((#) c) (lazy_dot_until close cs))"

definition friendlyName_here :: "string \<Rightarrow> string option" where
  "friendlyName_here s =
    (if starts_with_ci ''<friendlyName>'' s
     then lazy_dot_until ''</friendlyName>'' (drop (length ''<friendlyName>'') s)
     else None)"

fun friendlyName_match :: "string \<Rightarrow> string option" where
  "friendlyName_match [] = friendlyName_here []"
| "friendlyName_match (c # cs) =
    (case friendlyName_here (c # cs) of
       Some g \<Rightarrow> Some g
     | None \<Rightarrow> friendlyName_match cs)"

text \<open>
  Line 86: \<^verbatim>\<open>response.match(/WAKEUP:\s*MAC=([0-9a-fA-F:]+)/)\<close>, group 1 of the leftmost
  match. After \<^verbatim>\<open>WAKEUP:\<close> the white space is skipped (giving some of it back cannot
  help: \<^verbatim>\<open>M\<close> is no white space), \<^verbatim>\<open>MAC=\<close> must follow, and the group is the longest
  run of hexadecimal digits and colons, which must not be empty.
\<close>

definition is_hex_colon :: "char \<Rightarrow> bool" where
  "is_hex_colon c \<longleftrightarrow> c \<in> set ''0123456789abcdefABCDEF:''"

definition macMatch_here :: "string \<Rightarrow> string option" where
  "macMatch_here s =
    (if starts_with ''WAKEUP:'' s then
       (let r = dropWhile is_space (drop (length ''WAKEUP:'') s) in
        if starts_with ''MAC='' r then
          (let m = takeWhile is_hex_colon (drop (length ''MAC='') r) in
           if m = [] then None else Some m)
        else None)
     else None)"

fun macMatch :: "string \<Rightarrow> string option" where
  "macMatch [] = macMatch_here []"
| "macMatch (c # cs) =
    (case macMatch_here (c # cs) of
       Some m \<Rightarrow> Some m
     | None \<Rightarrow> macMatch cs)"

text \<open>
  Lines 72-91: the record pushed for a message that passed the filter. \<open>fetch_text\<close>
  is what \<^verbatim>\<open>await (await fetch(url)).text()\<close> does for a URL; \<open>address\<close> is
  \<^verbatim>\<open>rinfo.address\<close>. \<^verbatim>\<open>if (obj.LOCATION)\<close> holds for a header that is there and not
  empty.
\<close>

definition sentinel_mac :: string where
  "sentinel_mac = ''00:00:00:00:00:00''"

definition resolve_name :: "(string \<Rightarrow> string attempt) \<Rightarrow> (nat list \<rightharpoonup> string) \<Rightarrow> string \<Rightarrow> string option" where
  "resolve_name fetch_text obj address =
    (case obj (code_units ''LOCATION'') of
       None \<Rightarrow> Some address
     | Some location \<Rightarrow>
         if location = [] then Some address
         else (case fetch_text location of
                 Threw \<Rightarrow> Some address
               | Returned result \<Rightarrow> friendlyName_match result))"

definition message_device :: "(string \<Rightarrow> string attempt) \<Rightarrow> string \<Rightarrow> string \<Rightarrow> DeviceInfo" where
  "message_device fetch_text response address =
    (let obj = parse_headers response;
         friendlyName = resolve_name fetch_text obj address;
         ipAddress = address;
         macAddress = (case macMatch response of Some m \<Rightarrow> m | None \<Rightarrow> sentinel_mac)
     in \<lparr> friendlyName = friendlyName, ip = ipAddress, mac = macAddress \<rparr>)"

text \<open>The handler: \<^verbatim>\<open>devices.push(...)\<close> for a message with the marker, nothing at all
  for any other.\<close>

definition on_message :: "(string \<Rightarrow> string attempt) \<Rightarrow> string \<Rightarrow> string \<Rightarrow> DeviceInfo list \<Rightarrow> DeviceInfo list" where
  "on_message fetch_text response address devices =
    (if includes_str response ''Samsung''
     then devices @ [message_device fetch_text response address]
     else devices)"

text \<open>The list \<^verbatim>\<open>devices\<close> after the handler has run to its end for each of the
  datagrams \<open>(text, sender address)\<close>, in the order in which the handlers finish.\<close>

definition collected :: "(string \<Rightarrow> string attempt) \<Rightarrow> (string \<times> string) list \<Rightarrow> DeviceInfo list" where
  "collected fetch_text msgs = fold (\<lambda>(response, address). on_message fetch_text response address) msgs []"

text \<open>
  What it is for the pattern of line 86 to match in \<open>response\<close> after the prefix
  \<open>pre\<close>, with white space \<open>ws\<close> and group 1 a prefix \<open>m\<close> of the run of
  hexadecimal digits and colons.
\<close>

definition wakeup_token :: "string \<Rightarrow> string \<Rightarrow> string \<Rightarrow> string \<Rightarrow> string \<Rightarrow> bool" where
  "wakeup_token response pre ws m post \<longleftrightarrow>
     response = pre @ ''WAKEUP:'' @ ws @ ''MAC='' @ m @ post
     \<and> (\<forall>c\<in>set ws. is_space c) \<and> m \<noteq> [] \<and> (\<forall>c\<in>set m. is_hex_colon c)"

text \<open>
  The match that \<^verbatim>\<open>match\<close> returns: the pattern matches after \<open>pre\<close>, the group cannot
  be extended to the right, and the pattern matches after no shorter prefix.
\<close>

definition leftmost_token :: "string \<Rightarrow> string \<Rightarrow> string \<Rightarrow> string \<Rightarrow> string \<Rightarrow> bool" where
  "leftmost_token response pre ws m post \<longleftrightarrow>
     wakeup_token response pre ws m post
     \<and> (post = [] \<or> \<not> is_hex_colon (hd post))
     \<and> (\<forall>pre' ws' m' post'. wakeup_token response pre' ws' m' post' \<longrightarrow> length pre \<le> length pre')"

text \<open>An accepted reply in which the pattern matches twice.\<close>

definition two_tokens :: string where
  "two_tokens = ''Samsung WAKEUP: MAC=aA:1;WAKEUP:MAC=22''"

text \<open>A descriptor URL that cannot be fetched: \<^verbatim>\<open>fetch\<close> rejects.\<close>

definition unreachable :: "string \<Rightarrow> string attempt" where
  "unreachable url = Threw"

text \<open>A descriptor server whose document has no \<^verbatim>\<open>friendlyName\<close> element.\<close>

definition nameless :: "string \<Rightarrow> string attempt" where
  "nameless url = Returned ''<root></root>''"

subsection \<open>Discovery: the timer of \<^verbatim>\<open>getSamsungDevices\<close> (lines 98-107)\<close>




text \<open>Example data: a discovered set, and the same set seen later at another address.\<close>

definition tv :: DeviceInfo where
  "tv = \<lparr> friendlyName = Some ''TV'', ip = ''10.0.0.2'', mac = ''AA:BB'' \<rparr>"

definition tv_moved :: DeviceInfo where
  "tv_moved = \<lparr> friendlyName = Some ''TV'', ip = ''10.0.0.9'', mac = ''AA:BB'' \<rparr>"




subsection \<open>The cache: \<^verbatim>\<open>getCachedSamsungDevices\<close> (lines 111-137)\<close>

text \<open>
  The JavaScript values the cache code meets: what \<^verbatim>\<open>JSON.parse\<close> returns, and the
  device records stored into it. An object is the list of its own properties in the
  order in which they were created. An array is the list of its elements (\<open>None\<close> is
  a hole) and the list of its named properties, which an assignment
  \<^verbatim>\<open>array[key] = value\<close> with a key that is no index creates. Numbers are kept to the
  integers: the program never looks into one. JavaScript enumerates the integer-like
  keys of an object before the others; that order is not modelled, and nothing below
  depends on the order of the properties.
\<close>

datatype jsval =
    Undefined | Null | Bool bool | Num int | Str string
  | Arr "jsval option list" "(string \<times> jsval) list"
  | Obj "(string \<times> jsval) list"

text \<open>What the function can reject with: a \<^verbatim>\<open>TypeError\<close> or \<^verbatim>\<open>RangeError\<close> of the
  runtime, or the error of a \<^verbatim>\<open>writeFile\<close> that failed.\<close>

datatype error = TypeError | RangeError | WriteFailed

definition typeof :: "jsval \<Rightarrow> string" where
  "typeof v =
    (case v of
       Undefined \<Rightarrow> ''undefined''
     | Null \<Rightarrow> ''object''
     | Bool b \<Rightarrow> ''boolean''
     | Num n \<Rightarrow> ''number''
     | Str s \<Rightarrow> ''string''
     | Arr es ps \<Rightarrow> ''object''
     | Obj ps \<Rightarrow> ''object'')"

text \<open>
  Lines 121-126. \<open>parsed\<close> is what \<^verbatim>\<open>JSON.parse(await fs.promises.readFile(...))\<close> did:
  \<open>Threw\<close> for a file that is missing or cannot be read and for a text that is not
  JSON (such as \<^verbatim>\<open>not-json{\<close>), \<open>Returned v\<close> for a text that parses to \<open>v\<close>.
\<close>

definition load :: "jsval attempt \<Rightarrow> jsval" where
  "load parsed =
    (let result = (case parsed of Threw \<Rightarrow> Obj [] | Returned v \<Rightarrow> v)
     in if typeof result \<noteq> ''object'' then Obj [] else result)"

text \<open>The object literal of line 91, \<^verbatim>\<open>{ friendlyName, ip, mac }\<close>, as a value.\<close>

definition device_value :: "DeviceInfo \<Rightarrow> jsval" where
  "device_value device =
    Obj [(''friendlyName'', (case friendlyName device of None \<Rightarrow> Undefined | Some n \<Rightarrow> Str n)),
         (''ip'', Str (ip device)),
         (''mac'', Str (mac device))]"

text \<open>A property key is an array index when it is the decimal numeral, without
  leading zeros, of a number below \<open>2\<^sup>3\<^sup>2 - 1\<close>.\<close>

definition is_digit :: "char \<Rightarrow> bool" where
  "is_digit c \<longleftrightarrow> c \<in> set ''0123456789''"

definition digit_value :: "char \<Rightarrow> nat" where
  "digit_value c = of_char c - of_char (CHR ''0'')"

definition decimal_value :: "string \<Rightarrow> nat" where
  "decimal_value s = foldl (\<lambda>n c. 10 * n + digit_value c) 0 s"

definition array_index :: "string \<Rightarrow> nat option" where
  "array_index k =
    (if k \<noteq> [] \<and> list_all is_digit k \<and> (k = ''0'' \<or> hd k \<noteq> CHR ''0'')
        \<and> decimal_value k < 2 ^ 32 - 1
     then Some (decimal_value k) else None)"

text \<open>\<^verbatim>\<open>array[i] = v\<close>: in range it replaces the element, out of range it extends the
  array, leaving holes.\<close>

definition set_element :: "jsval option list \<Rightarrow> nat \<Rightarrow> jsval \<Rightarrow> jsval option list" where
  "set_element es i v =
    (if i < length es then es[i := Some v]
     else es @ replicate (i - length es) None @ [Some v])"

text \<open>
  \<^verbatim>\<open>o[k] = v\<close> on the own properties of an ordinary object, \<open>v\<close> an object: an own
  property is replaced where it stands, a new one is added at the end. The key
  \<^verbatim>\<open>__proto__\<close>, when it is no own property, is the accessor of \<^verbatim>\<open>Object.prototype\<close>:
  the assignment sets the prototype and creates no property.
\<close>

definition proto_key :: string where
  "proto_key = ''__proto__''"

definition set_own :: "(string \<times> jsval) list \<Rightarrow> string \<Rightarrow> jsval \<Rightarrow> (string \<times> jsval) list" where
  "set_own ps k v =
    (if k = proto_key \<and> map_of ps k = None then ps else AList.update k v ps)"

text \<open>
  Line 131, \<^verbatim>\<open>result[device.mac] = device\<close>, for each value \<open>result\<close> can have: on
  \<^verbatim>\<open>null\<close> it throws a \<^verbatim>\<open>TypeError\<close>; on an array it sets an element or a named
  property, and \<^verbatim>\<open>length\<close> cannot be set to an object (\<^verbatim>\<open>RangeError\<close>). The program is
  a module, hence strict code, where a property cannot be created on a primitive
  value either (\<open>load\<close> never returns one).
\<close>

fun set_property :: "jsval \<Rightarrow> string \<Rightarrow> jsval \<Rightarrow> error + jsval" where
  "set_property (Obj ps) k v = Inr (Obj (set_own ps k v))"
| "set_property (Arr es ps) k v =
    (case array_index k of
       Some i \<Rightarrow> Inr (Arr (set_element es i v) ps)
     | None \<Rightarrow> if k = ''length'' then Inl RangeError else Inr (Arr es (set_own ps k v)))"
| "set_property other k v = Inl TypeError"

text \<open>Lines 130-132: the loop over the discovered devices.\<close>

fun merge :: "jsval \<Rightarrow> DeviceInfo list \<Rightarrow> error + jsval" where
  "merge result [] = Inr result"
| "merge result (device # devices) =
    (case set_property result (mac device) (device_value device) of
       Inl e \<Rightarrow> Inl e
     | Inr result' \<Rightarrow> merge result' devices)"

text \<open>
  \<^verbatim>\<open>JSON.stringify(result)\<close>, given as the value that \<^verbatim>\<open>JSON.parse\<close> reads back from
  the text: a property whose value is \<^verbatim>\<open>undefined\<close> is left out, a hole or an
  \<^verbatim>\<open>undefined\<close> element of an array is written as \<^verbatim>\<open>null\<close>, and the named properties
  of an array are not written. \<open>None\<close>: there is no text (\<^verbatim>\<open>JSON.stringify(undefined)\<close>).
\<close>

primrec json_of :: "jsval \<Rightarrow> jsval option" where
  "json_of Undefined = None"
| "json_of Null = Some Null"
| "json_of (Bool b) = Some (Bool b)"
| "json_of (Num n) = Some (Num n)"
| "json_of (Str s) = Some (Str s)"
| "json_of (Arr es ps) =
    Some (Arr (map (\<lambda>e. Some (case e of Some (Some j) \<Rightarrow> j | _ \<Rightarrow> Null))
                (map (map_option json_of) es)) [])"
| "json_of (Obj ps) =
    Some (Obj (List.map_filter (\<lambda>(k, j). map_option (Pair k) j) (map (map_prod id json_of) ps)))"

text \<open>\<^verbatim>\<open>Object.values(result)\<close> (line 136); it throws on \<^verbatim>\<open>null\<close>.\<close>

fun Object_values :: "jsval \<Rightarrow> error + jsval list" where
  "Object_values (Obj ps) = Inr (map snd ps)"
| "Object_values (Arr es ps) = Inr (List.map_filter id es @ map snd ps)"
| "Object_values (Str s) = Inr (map (\<lambda>c. Str [c]) s)"
| "Object_values (Bool b) = Inr []"
| "Object_values (Num n) = Inr []"
| "Object_values Null = Inl TypeError"
| "Object_values Undefined = Inl TypeError"

text \<open>
  The whole function. \<open>devices\<close> is the list that \<^verbatim>\<open>getSamsungDevices()\<close> resolved
  to, \<open>write_ok\<close> tells whether \<^verbatim>\<open>writeFile\<close> succeeded. The result is the content
  written to the cache file (\<open>None\<close> when nothing was written) and what the promise
  settled with: an error for a rejection, the list of line 136 otherwise.
\<close>

definition getCachedSamsungDevices ::
  "jsval attempt \<Rightarrow> DeviceInfo list \<Rightarrow> bool \<Rightarrow> jsval option \<times> (error + jsval list)" where
  "getCachedSamsungDevices parsed devices write_ok =
    (case merge (load parsed) devices of
       Inl e \<Rightarrow> (None, Inl e)
     | Inr result \<Rightarrow>
         (case json_of result of
            None \<Rightarrow> (None, Inl TypeError)
          | Some text \<Rightarrow>
              if write_ok then (Some text, Object_values result)
              else (None, Inl WriteFailed)))"

text \<open>Line 131 on the properties of an object, for one device.\<close>

definition put :: "DeviceInfo \<Rightarrow> (string \<times> jsval) list \<Rightarrow> (string \<times> jsval) list" where
  "put device ps = set_own ps (mac device) (device_value device)"

text \<open>Example data: an entry of an older cache.\<close>

definition old_tv :: jsval where
  "old_tv = Obj [(''ip'', Str ''10.0.0.1''), (''note'', Str ''x'')]"

subsection \<open>The key decoder of \<^verbatim>\<open>main\<close> (lines 185-231)\<close>

datatype Keys =
    KEY_0 | KEY_1 | KEY_2 | KEY_3 | KEY_4 | KEY_5 | KEY_6 | KEY_7 | KEY_8 | KEY_9
  | KEY_UP | KEY_DOWN | KEY_RIGHT | KEY_LEFT | KEY_BACK_MHP | KEY_HOME | KEY_ENTER
  | KEY_PLAY | KEY_VOLUP | KEY_VOLDOWN | KEY_CHUP | KEY_CHDOWN | KEY_POWER

text \<open>What one pass of the loop asks of the remote: \<^verbatim>\<open>remote.sendKey(k)\<close> or
  \<^verbatim>\<open>remote.sendKeys([k, ...])\<close>.\<close>

datatype remote_call = sendKey Keys | sendKeys "Keys list"

text \<open>The outcome of one pass: the calls made on the remote, and whether the pass
  ended in \<^verbatim>\<open>process.exit()\<close>.\<close>

datatype pass = Continue "remote_call list" | Exit "remote_call list"

text \<open>
  \<^verbatim>\<open>buffer.slice(0, bytesRead).toString().replace(/\u0000/g, '')\<close> on the 3-byte
  buffer that \<^verbatim>\<open>fileHandle.read(buffer, 0, 3, null)\<close> filled with \<open>bytesRead\<close> bytes.
\<close>

definition read_key :: "string \<Rightarrow> nat \<Rightarrow> string" where
  "read_key buffer bytesRead = filter (\<lambda>c. c \<noteq> NUL) (take bytesRead buffer)"

text \<open>The \<^verbatim>\<open>switch (key)\<close>, case by case in the order of the source.\<close>

definition dispatch :: "string \<Rightarrow> pass" where
  "dispatch key =
    (if key = ''0'' then Continue [sendKey KEY_0]
     else if key = ''1'' then Continue [sendKey KEY_1]
     else if key = ''2'' then Continue [sendKey KEY_2]
     else if key = ''3'' then Continue [sendKey KEY_3]
     else if key = ''4'' then Continue [sendKey KEY_4]
     else if key = ''5'' then Continue [sendKey KEY_5]
     else if key = ''6'' then Continue [sendKey KEY_6]
     else if key = ''7'' then Continue [sendKey KEY_7]
     else if key = ''8'' then Continue [sendKey KEY_8]
     else if key = ''9'' then Continue [sendKey KEY_9]
     else if key = ESC # ''[A'' then Continue [sendKey KEY_UP]
     else if key = ESC # ''[B'' then Continue [sendKey KEY_DOWN]
     else if key = ESC # ''[C'' then Continue [sendKey KEY_RIGHT]
     else if key = ESC # ''[D'' then Continue [sendKey KEY_LEFT]
     else if key = [DEL] then Continue [sendKey KEY_BACK_MHP]
     else if key = [ESC] then Continue [sendKey KEY_HOME]
     else if key = [CR] then Continue [sendKey KEY_ENTER]
     else if key = ''p'' then Continue [sendKey KEY_PLAY]
     else if key = ''+'' then Continue [sendKey KEY_VOLUP]
     else if key = ''-'' then Continue [sendKey KEY_VOLDOWN]
     else if key = ''w'' then Continue [sendKey KEY_CHUP]
     else if key = ''s'' then Continue [sendKey KEY_CHDOWN]
     else if key = ''q'' then Exit [sendKeys [KEY_POWER]]
     else if key = [ETX] \<or> key = ''f'' then Exit []
     else Continue [])"

text \<open>One pass of the loop: read a frame, decode it, dispatch it.\<close>

definition loop_pass :: "string \<Rightarrow> nat \<Rightarrow> pass" where
  "loop_pass buffer bytesRead = dispatch (read_key buffer bytesRead)"

text \<open>The keys that have a \<^verbatim>\<open>case\<close> of their own in the switch.\<close>

definition mapped_keys :: "string list" where
  "mapped_keys =
    map (\<lambda>c. [c]) ''0123456789'' @
    [ESC # ''[A'', ESC # ''[B'', ESC # ''[C'', ESC # ''[D'', [DEL], [ESC], [CR],
     ''p'', ''+'', ''-'', ''w'', ''s'', ''q'', [ETX], ''f'']"

section \<open>Properties\<close>

subsection \<open>Strings\<close>

lemmas ctrl_defs = NUL_def ETX_def LF_def CR_def ESC_def DEL_def

lemma starts_with_iff: "starts_with p s \<longleftrightarrow> (\<exists>post. s = p @ post)"
  unfolding starts_with_def by (metis append_eq_conv_conj append_take_drop_id)

lemma includes_str_iff: "includes_str s sub \<longleftrightarrow> (\<exists>pre post. s = pre @ sub @ post)"
proof (induction s)
  case Nil
  then show ?case by simp
next
  case (Cons c cs)
  show ?case
  proof
    assume "includes_str (c # cs) sub"
    then consider "starts_with sub (c # cs)" | "includes_str cs sub" by auto
    then show "\<exists>pre post. c # cs = pre @ sub @ post"
    proof cases
      case 1
      then obtain post where "c # cs = sub @ post" by (auto simp: starts_with_iff)
      then have "c # cs = [] @ sub @ post" by simp
      then show ?thesis by blast
    next
      case 2
      with Cons.IH obtain pre post where "cs = pre @ sub @ post" by blast
      then have "c # cs = (c # pre) @ sub @ post" by simp
      then show ?thesis by blast
    qed
  next
    assume "\<exists>pre post. c # cs = pre @ sub @ post"
    then obtain pre post where eq: "c # cs = pre @ sub @ post" by blast
    show "includes_str (c # cs) sub"
    proof (cases pre)
      case Nil
      with eq have "starts_with sub (c # cs)" unfolding starts_with_iff by auto
      then show ?thesis by simp
    next
      case (Cons p ps)
      with eq have "cs = ps @ sub @ post" by simp
      with Cons.IH show ?thesis by auto
    qed
  qed
qed

lemma fold_on_message_filter:
  "fold (\<lambda>(response, address). on_message fetch_text response address) msgs ds =
   fold (\<lambda>(response, address). on_message fetch_text response address)
     (filter (\<lambda>(response, address). includes_str response ''Samsung'') msgs) ds"
  by (induction msgs arbitrary: ds) (auto simp: on_message_def)

lemma set_on_message:
  "set (on_message fetch_text r a ds) =
   set ds \<union> (if includes_str r ''Samsung'' then {message_device fetch_text r a} else {})"
  by (simp add: on_message_def)

lemma fold_on_message_set:
  "set (fold (\<lambda>(response, address). on_message fetch_text response address) msgs ds) =
   set ds \<union> (\<lambda>(response, address). message_device fetch_text response address) `
     {m \<in> set msgs. includes_str (fst m) ''Samsung''}"
proof (induction msgs arbitrary: ds)
  case Nil
  then show ?case by simp
next
  case (Cons m msgs)
  obtain r a where m: "m = (r, a)" by (cases m)
  show ?case
    unfolding m by (auto simp: Cons.IH set_on_message)
qed

lemma indexOf_absent: "c \<notin> set s \<Longrightarrow> indexOf s c = - 1"
  by (induction s) auto

lemma indexOf_first: "c \<notin> set k \<Longrightarrow> indexOf (k @ c # v) c = int (length k)"
  by (induction k) (auto simp: Let_def)

lemma header_line_no_colon: "CHR '':'' \<notin> set l \<Longrightarrow> header_line l obj = obj"
  by (simp add: header_line_def indexOf_absent)

lemma header_line_first_colon:
  "CHR '':'' \<notin> set k \<Longrightarrow>
   header_line (k @ CHR '':'' # v) obj = obj(toUpperCase (trim k) \<mapsto> trim v)"
proof -
  assume k: "CHR '':'' \<notin> set k"
  have n: "nat (int (length k) + 1) = Suc (length k)" by simp
  show ?thesis
    using k by (simp add: header_line_def indexOf_first substring_def substring_from_def Let_def n)
qed

lemmas upper_defs = upper_units_def lower_letters_def upper_letters_def code_units_def

lemma map_of_zip_None: "c \<notin> set xs \<Longrightarrow> map_of (zip xs ys) c = None"
  by (auto simp: map_of_eq_None_iff elim: in_set_zipE)

lemma is_space_unit_of_char: "is_space_unit (of_char c) \<longleftrightarrow> is_space c"
  by (simp add: is_space_unit_def)

lemma big_not_space_unit: "256 \<le> u \<Longrightarrow> \<not> is_space_unit u"
  by (simp add: is_space_unit_def)

lemma letters_not_space:
  "\<forall>u\<in>set upper_letters. \<not> is_space u" "\<forall>u\<in>set lower_letters. \<not> is_space u"
  by (simp_all add: upper_letters_def lower_letters_def is_space_def ctrl_defs)

lemma special_facts:
  "\<not> is_space (CHR 0xDF)" "\<not> is_space (CHR ''S'')" "\<not> is_space (CHR 0xB5)" "\<not> is_space (CHR 0xFF)"
  "CHR ''S'' \<notin> set lower_letters"
  by (simp_all add: lower_letters_def is_space_def ctrl_defs)

lemma map_of_zip_D: "map_of (zip xs ys) c = Some u \<Longrightarrow> c \<in> set xs \<and> u \<in> set ys"
  by (auto dest!: map_of_SomeD elim: in_set_zipE)

lemma upper_units_cases:
  obtains (sharp_s) "c = CHR 0xDF" "upper_units c = [of_char (CHR ''S''), of_char (CHR ''S'')]"
  | (micro) "c = CHR 0xB5" "upper_units c = [0x39C]"
  | (y_diaeresis) "c = CHR 0xFF" "upper_units c = [0x178]"
  | (letter) u where "c \<in> set lower_letters" "u \<in> set upper_letters" "upper_units c = [of_char u]"
  | (other) "upper_units c = [of_char c]" "c \<notin> set lower_letters"
proof (cases "c = CHR 0xDF \<or> c = CHR 0xB5 \<or> c = CHR 0xFF")
  case True
  then consider "c = CHR 0xDF" | "c = CHR 0xB5" | "c = CHR 0xFF" by blast
  then show ?thesis
  proof cases
    case 1
    then have "upper_units c = [of_char (CHR ''S''), of_char (CHR ''S'')]"
      by (simp add: upper_units_def code_units_def)
    with 1 show ?thesis by (rule sharp_s)
  next
    case 2
    then have "upper_units c = [0x39C]" by (simp add: upper_units_def)
    with 2 show ?thesis by (rule micro)
  next
    case 3
    then have "upper_units c = [0x178]" by (simp add: upper_units_def)
    with 3 show ?thesis by (rule y_diaeresis)
  qed
next
  case False
  show ?thesis
  proof (cases "map_of (zip lower_letters upper_letters) c")
    case None
    have "c \<notin> set lower_letters"
    proof
      assume "c \<in> set lower_letters"
      then have "c \<in> fst ` set (zip lower_letters upper_letters)"
        by (simp add: lower_letters_def upper_letters_def)
      with None show False by (simp add: map_of_eq_None_iff)
    qed
    moreover from None False have "upper_units c = [of_char c]" by (simp add: upper_units_def)
    ultimately show ?thesis by (intro other)
  next
    case (Some u)
    then have "c \<in> set lower_letters" "u \<in> set upper_letters"
      using map_of_zip_D by fastforce+
    moreover from Some False have "upper_units c = [of_char u]" by (simp add: upper_units_def)
    ultimately show ?thesis by (intro letter)
  qed
qed

lemma S_not_space_unit: "\<not> is_space_unit 83"
  using is_space_unit_of_char[of "CHR ''S''"] special_facts by simp

lemma upper_units_space: "is_space c \<Longrightarrow> upper_units c = [of_char c]"
  by (cases c rule: upper_units_cases) (use letters_not_space special_facts in auto)

lemma upper_units_not_space:
  "\<not> is_space c \<Longrightarrow> u \<in> set (upper_units c) \<Longrightarrow> \<not> is_space_unit u"
  by (cases c rule: upper_units_cases)
    (use letters_not_space special_facts S_not_space_unit in
      \<open>auto simp: is_space_unit_of_char big_not_space_unit\<close>)

lemma upper_units_nonempty: "upper_units c \<noteq> []"
  by (cases c rule: upper_units_cases) auto

lemma dropWhile_concat_map:
  assumes "\<And>c. P c \<Longrightarrow> \<exists>u. f c = [u] \<and> Q u" "\<And>c. \<not> P c \<Longrightarrow> f c \<noteq> [] \<and> \<not> Q (hd (f c))"
  shows "dropWhile Q (concat (map f s)) = concat (map f (dropWhile P s))"
proof (induction s)
  case Nil
  then show ?case by simp
next
  case (Cons c s)
  show ?case
  proof (cases "P c")
    case True
    with assms(1)[of c] obtain u where "f c = [u]" "Q u" by blast
    with True Cons show ?thesis by simp
  next
    case False
    with assms(2)[of c] obtain u us where "f c = u # us" "\<not> Q u"
      by (cases "f c") auto
    with False show ?thesis by simp
  qed
qed

lemma toUpperCase_trim: "toUpperCase (trim s) = trim_units (toUpperCase s)"
proof -
  have front: "\<And>s. dropWhile is_space_unit (concat (map upper_units s)) =
      concat (map upper_units (dropWhile is_space s))"
  proof (rule dropWhile_concat_map)
    fix c
    show "is_space c \<Longrightarrow> \<exists>u. upper_units c = [u] \<and> is_space_unit u"
      by (simp add: upper_units_space is_space_unit_of_char)
    show "\<not> is_space c \<Longrightarrow> upper_units c \<noteq> [] \<and> \<not> is_space_unit (hd (upper_units c))"
      using upper_units_nonempty[of c] upper_units_not_space[of c "hd (upper_units c)"] by simp
  qed
  have rear: "\<And>s. dropWhile is_space_unit (concat (map (rev \<circ> upper_units) s)) =
      concat (map (rev \<circ> upper_units) (dropWhile is_space s))"
  proof (rule dropWhile_concat_map)
    fix c
    show "is_space c \<Longrightarrow> \<exists>u. (rev \<circ> upper_units) c = [u] \<and> is_space_unit u"
      by (simp add: upper_units_space is_space_unit_of_char)
    show "\<not> is_space c \<Longrightarrow> (rev \<circ> upper_units) c \<noteq> [] \<and> \<not> is_space_unit (hd ((rev \<circ> upper_units) c))"
      using upper_units_nonempty[of c] upper_units_not_space[of c "last (upper_units c)"]
      by (simp add: hd_rev)
  qed
  have revc: "\<And>s. rev (concat (map upper_units s)) = concat (map (rev \<circ> upper_units) (rev s))"
    by (simp add: rev_concat rev_map)
  have revc': "\<And>s. rev (concat (map (rev \<circ> upper_units) s)) = concat (map upper_units (rev s))"
    by (simp add: rev_concat rev_map comp_def)
  show ?thesis
    unfolding toUpperCase_def trim_def trim_units_def
    by (simp only: front revc rear revc')
qed

lemma toUpperCase_trim_cong:
  "toUpperCase k = toUpperCase k' \<Longrightarrow> toUpperCase (trim k) = toUpperCase (trim k')"
  by (simp add: toUpperCase_trim)

lemma upper_not_lower: "\<forall>u\<in>set upper_letters. u \<notin> set lower_letters"
  by (simp add: upper_letters_def lower_letters_def)

lemma of_char_in_image: "(of_char c :: nat) \<in> of_char ` A \<longleftrightarrow> c \<in> A"
  using inj_of_char[where ?'a = nat] by (auto simp: inj_image_mem_iff)

lemma upper_units_fixed:
  "c \<notin> set lower_letters \<Longrightarrow> c \<notin> {CHR 0xDF, CHR 0xB5, CHR 0xFF} \<Longrightarrow> upper_units c = [of_char c]"
  by (simp add: upper_units_def map_of_zip_None)

lemma upper_letters_fixed: "\<forall>u\<in>set upper_letters. upper_units u = [of_char u]"
proof
  fix u
  assume u: "u \<in> set upper_letters"
  have "\<forall>u\<in>set upper_letters. u \<notin> {CHR 0xDF, CHR 0xB5, CHR 0xFF}"
    by (simp add: upper_letters_def)
  with u upper_not_lower show "upper_units u = [of_char u]"
    by (intro upper_units_fixed) auto
qed

lemma S_fixed: "upper_units (CHR ''S'') = [of_char (CHR ''S'')]"
  using special_facts by (intro upper_units_fixed) simp_all

lemma of_char_less: "(of_char c :: nat) \<noteq> 0x39C \<and> (of_char c :: nat) \<noteq> 0x178"
  using nat_of_char_less_256[of c] by linarith

lemma upper_units_stable:
  assumes "of_char c \<in> set (upper_units c')"
  shows "upper_units c = [of_char c]"
proof (cases c' rule: upper_units_cases)
  case sharp_s
  with assms have "(of_char c :: nat) = of_char (CHR ''S'')" by auto
  then have "c = CHR ''S''" by (simp only: of_char_eq_iff)
  with S_fixed show ?thesis by simp
next
  case micro
  with assms of_char_less[of c] show ?thesis by simp
next
  case y_diaeresis
  with assms of_char_less[of c] show ?thesis by simp
next
  case (letter u)
  with assms have "(of_char c :: nat) = of_char u" by simp
  then have "c = u" by (simp only: of_char_eq_iff)
  with letter upper_letters_fixed show ?thesis by simp
next
  case other
  with assms have "(of_char c :: nat) = of_char c'" by simp
  then have "c = c'" by (simp only: of_char_eq_iff)
  with other show ?thesis by simp
qed

lemma toUpperCase_stable:
  "of_char c \<in> set (toUpperCase s) \<Longrightarrow> toUpperCase [c] = [of_char c]"
  unfolding toUpperCase_def using upper_units_stable[of c] by auto

lemma trim_ends: "trim v = [] \<or> \<not> is_space (hd (trim v)) \<and> \<not> is_space (last (trim v))"
proof (cases "trim v = []")
  case True
  then show ?thesis by simp
next
  case False
  let ?w = "dropWhile is_space v"
  let ?u = "dropWhile is_space (rev ?w)"
  from False have u: "?u \<noteq> []" by (simp add: trim_def)
  then have w: "?w \<noteq> []" by (metis dropWhile.simps(1) rev.simps(1))
  have "last (trim v) = hd ?u" using u by (simp add: trim_def last_rev)
  moreover have "\<not> is_space (hd ?u)" using u by (rule hd_dropWhile)
  moreover have "hd (trim v) = last ?u" using u by (simp add: trim_def hd_rev)
  moreover have "last ?u = last (rev ?w)" using u
    by (metis append_is_Nil_conv last_appendR takeWhile_dropWhile_id)
  moreover have "last (rev ?w) = hd ?w" using w by (simp add: last_rev)
  moreover have "\<not> is_space (hd ?w)" using w by (rule hd_dropWhile)
  ultimately show ?thesis by simp
qed

lemma trim_decomp:
  "\<exists>a b. v = a @ trim v @ b \<and> (\<forall>c\<in>set a. is_space c) \<and> (\<forall>c\<in>set b. is_space c)"
proof -
  let ?a = "takeWhile is_space v"
  let ?w = "dropWhile is_space v"
  let ?b = "rev (takeWhile is_space (rev ?w))"
  have "rev ?w = takeWhile is_space (rev ?w) @ dropWhile is_space (rev ?w)" by simp
  then have "?w = trim v @ ?b"
    by (metis rev_append rev_rev_ident trim_def)
  then have "v = ?a @ trim v @ ?b" by (metis takeWhile_dropWhile_id)
  moreover have "\<forall>c\<in>set ?a. is_space c" by (auto dest: set_takeWhileD)
  moreover have "\<forall>c\<in>set ?b. is_space c" by (auto dest: set_takeWhileD)
  ultimately show ?thesis by blast
qed

lemma split_on_nonempty: "split_on s c \<noteq> []"
  by (induction s) (auto split: list.splits)

lemma split_on_single: "c \<notin> set l \<Longrightarrow> split_on l c = [l]"
  by (induction l) (auto split: list.splits)

lemma split_on_append: "split_on (a @ c # b) c = split_on a c @ split_on b c"
  by (induction a) (auto split: list.splits simp: split_on_nonempty)

lemma parse_lines_filter:
  "fold header_line ls obj = fold header_line (filter (\<lambda>l. CHR '':'' \<in> set l) ls) obj"
  by (induction ls arbitrary: obj) (auto simp: header_line_no_colon)


subsection \<open>Header parsing\<close>

lemma header_line_keys:
  "(\<forall>key\<in>dom obj. \<forall>c. of_char c \<in> set key \<longrightarrow> toUpperCase [c] = [of_char c]) \<Longrightarrow>
   \<forall>key\<in>dom (header_line l obj). \<forall>c. of_char c \<in> set key \<longrightarrow> toUpperCase [c] = [of_char c]"
  by (auto simp: header_line_def Let_def dest: toUpperCase_stable)

lemma fold_header_line_keys:
  "(\<forall>key\<in>dom obj. \<forall>c. of_char c \<in> set key \<longrightarrow> toUpperCase [c] = [of_char c]) \<Longrightarrow>
   \<forall>key\<in>dom (fold header_line ls obj). \<forall>c. of_char c \<in> set key \<longrightarrow> toUpperCase [c] = [of_char c]"
proof (induction ls arbitrary: obj)
  case Nil
  then show ?case by simp
next
  case (Cons l ls)
  from header_line_keys[OF Cons.prems]
  have "\<forall>key\<in>dom (header_line l obj). \<forall>c. of_char c \<in> set key \<longrightarrow> toUpperCase [c] = [of_char c]" .
  from Cons.IH[OF this] show ?case by simp
qed

lemma header_line_case_insensitive:
  assumes "CHR '':'' \<notin> set k" "CHR '':'' \<notin> set k'" "toUpperCase k = toUpperCase k'"
  shows "header_line (k @ CHR '':'' # v) obj = header_line (k' @ CHR '':'' # v) obj"
  using assms by (simp add: header_line_first_colon toUpperCase_trim)

lemma parse_headers_skip:
  assumes "CHR '':'' \<notin> set l" "LF \<notin> set l"
  shows "parse_headers (pre @ LF # l @ LF # post) = parse_headers (pre @ LF # post)"
proof -
  have "split_on (pre @ LF # l @ LF # post) LF = split_on pre LF @ [l] @ split_on post LF"
    using assms(2) by (simp add: split_on_append split_on_single)
  moreover have "split_on (pre @ LF # post) LF = split_on pre LF @ split_on post LF"
    by (simp add: split_on_append)
  ultimately show ?thesis
    using assms(1) by (simp add: parse_headers_def parse_lines_def header_line_no_colon)
qed

lemma split_on_last: "c \<notin> set l \<Longrightarrow> split_on (pre @ c # l) c = split_on pre c @ [l]"
  by (simp add: split_on_append split_on_single)

lemma parse_headers_single: "LF \<notin> set l \<Longrightarrow> parse_headers l = header_line l Map.empty"
  by (simp add: parse_headers_def parse_lines_def split_on_single)

lemma parse_headers_last:
  "LF \<notin> set l \<Longrightarrow> parse_headers (pre @ LF # l) = header_line l (parse_headers pre)"
  by (simp add: parse_headers_def parse_lines_def split_on_last)

text \<open>
  Claim C8. Parsing the header block of a reply. The block is read line by line, each
  line upon the result of the lines before it, so that the entries of a block are
  those of its lines, a later line replacing an earlier one of the same key. A line
  is cut at its first colon; the key is trimmed and put in upper case, so that two
  spellings of a key that differ in case only give the same entry and every key of
  the result is in upper case (each of its code units below 256 is its own upper
  case); the value is what is left of the rest of the line once the white space at
  both ends is removed. A line with no colon changes nothing, whatever the lines
  around it.
\<close>

theorem header_parsing:
  "(LF \<notin> set l \<longrightarrow> parse_headers l = header_line l Map.empty)
   \<and> (LF \<notin> set l \<longrightarrow> parse_headers (pre @ LF # l) = header_line l (parse_headers pre))
   \<and> (CHR '':'' \<notin> set k \<longrightarrow>
      header_line (k @ CHR '':'' # v) obj = obj(toUpperCase (trim k) \<mapsto> trim v))
   \<and> (CHR '':'' \<notin> set l \<longrightarrow> header_line l obj = obj)
   \<and> (CHR '':'' \<notin> set k \<and> CHR '':'' \<notin> set k' \<and> toUpperCase k = toUpperCase k' \<longrightarrow>
      header_line (k @ CHR '':'' # v) obj = header_line (k' @ CHR '':'' # v) obj)
   \<and> (\<forall>key\<in>dom (parse_headers response). \<forall>c.
        of_char c \<in> set key \<longrightarrow> toUpperCase [c] = [of_char c])
   \<and> (trim v = [] \<or> \<not> is_space (hd (trim v)) \<and> \<not> is_space (last (trim v)))
   \<and> (\<exists>a b. v = a @ trim v @ b \<and> (\<forall>c\<in>set a. is_space c) \<and> (\<forall>c\<in>set b. is_space c))
   \<and> (CHR '':'' \<notin> set l \<and> LF \<notin> set l \<longrightarrow>
      parse_headers (pre @ LF # l @ LF # post) = parse_headers (pre @ LF # post))
   \<and> parse_lines ls = parse_lines (filter (\<lambda>l. CHR '':'' \<in> set l) ls)
   \<and> parse_lines [] = Map.empty
   \<and> parse_lines (ls @ [l]) = header_line l (parse_lines ls)"
proof -
  have "\<forall>key\<in>dom (parse_headers response). \<forall>c.
      of_char c \<in> set key \<longrightarrow> toUpperCase [c] = [of_char c]"
    unfolding parse_headers_def parse_lines_def by (rule fold_header_line_keys) simp
  moreover have "parse_lines ls = parse_lines (filter (\<lambda>l. CHR '':'' \<in> set l) ls)"
    unfolding parse_lines_def by (rule parse_lines_filter)
  moreover have "parse_lines [] = Map.empty"
    and "parse_lines (ls @ [l]) = header_line l (parse_lines ls)"
    by (simp_all add: parse_lines_def)
  ultimately show ?thesis
    using header_line_first_colon[of k v obj] header_line_case_insensitive[of k k' v obj]
      trim_ends[of v] trim_decomp[of v] header_line_no_colon[of l obj]
      parse_headers_skip[of l pre post] parse_headers_single[of l] parse_headers_last[of l pre]
    by blast
qed

theorem header_parsing_witness:
  "LF \<notin> set ''Host: a:1 '' \<and> CHR '':'' \<notin> set ''Host'' \<and> CHR '':'' \<notin> set ''HOST''
   \<and> toUpperCase ''Host'' = toUpperCase ''HOST''
   \<and> CHR '':'' \<notin> set ''HTTP/1.1 200 OK'' \<and> LF \<notin> set ''HTTP/1.1 200 OK''
   \<and> parse_headers ''HTTP/1.1 200 OK'' = Map.empty
   \<and> parse_headers (''HTTP/1.1 200 OK'' @ LF # ''Host: a:1 '') (code_units ''HOST'') = Some ''a:1''
   \<and> parse_headers (''HTTP/1.1 200 OK'' @ LF # ''Host: a:1 '') =
       parse_headers (''HTTP/1.1 200 OK'' @ LF # ''HOST: a:1 '')
   \<and> code_units ''HOST'' \<in> dom (parse_headers (''HTTP/1.1 200 OK'' @ LF # ''Host: a:1 ''))
   \<and> of_char (CHR ''H'') \<in> set (code_units ''HOST'')
   \<and> toUpperCase ''H'' = code_units ''H''
   \<and> trim '' a:1 '' = ''a:1''
   \<and> \<not> is_space (hd (trim '' a:1 '')) \<and> \<not> is_space (last (trim '' a:1 ''))"
proof -
  define status where "status = ''HTTP/1.1 200 OK''"
  have c1: "CHR '':'' \<notin> set ''Host''" and c2: "CHR '':'' \<notin> set ''HOST''" by simp_all
  have l1: "LF \<notin> set ''Host: a:1 ''" and l2: "LF \<notin> set ''HOST: a:1 ''"
    by (simp_all add: ctrl_defs)
  have u: "toUpperCase ''Host'' = toUpperCase ''HOST''"
    by (simp add: toUpperCase_def upper_defs)
  have c3: "CHR '':'' \<notin> set status" by (simp add: status_def)
  have c4: "LF \<notin> set status" by (simp add: status_def ctrl_defs)
  have t: "trim '' a:1 '' = ''a:1''" by (simp add: trim_def is_space_def ctrl_defs)
  have n: "\<not> is_space (CHR ''a'')" "\<not> is_space (CHR ''1'')" by (simp_all add: is_space_def ctrl_defs)
  have k: "toUpperCase (trim ''Host'') = code_units ''HOST''"
    by (simp add: trim_def is_space_def ctrl_defs toUpperCase_def upper_defs)
  have m: "of_char (CHR ''H'') \<in> set (code_units ''HOST'')" by (simp add: code_units_def)
  note h1 = header_parsing[where l = "''Host: a:1 ''" and pre = status and k = "''Host''"
      and v = "'' a:1 ''" and obj = "parse_headers status" and k' = "''HOST''"
      and response = "status @ LF # ''Host: a:1 ''" and post = "[]" and ls = "[]",
      unfolded append_Cons append_Nil]
  note h2 = header_parsing[where l = "''HOST: a:1 ''" and pre = status and k = "''HOST''"
      and v = "'' a:1 ''" and obj = "parse_headers status" and k' = "''HOST''"
      and response = "[]" and post = "[]" and ls = "[]", unfolded append_Cons append_Nil]
  note h3 = header_parsing[where l = status and pre = "[]" and k = "[]"
      and v = "[]" and obj = Map.empty and k' = "[]"
      and response = "[]" and post = "[]" and ls = "[]"]
  from h3 c3 c4 have e: "parse_headers status = Map.empty" by metis
  from h1 l1 have p1: "parse_headers (status @ LF # ''Host: a:1 '') =
      header_line ''Host: a:1 '' (parse_headers status)" by blast
  from h1 c1 have a1: "header_line ''Host: a:1 '' (parse_headers status) =
      (parse_headers status)(toUpperCase (trim ''Host'') \<mapsto> trim '' a:1 '')" by blast
  from h2 l2 have p2: "parse_headers (status @ LF # ''HOST: a:1 '') =
      header_line ''HOST: a:1 '' (parse_headers status)" by blast
  from h1 c1 c2 u have ci: "header_line ''Host: a:1 '' (parse_headers status) =
      header_line ''HOST: a:1 '' (parse_headers status)" by blast
  from p1 a1 have v1: "parse_headers (status @ LF # ''Host: a:1 '') (code_units ''HOST'') = Some ''a:1''"
    by (simp add: t k)
  then have d: "code_units ''HOST'' \<in> dom (parse_headers (status @ LF # ''Host: a:1 ''))"
    by (rule domI)
  from h1 have "\<forall>key\<in>dom (parse_headers (status @ LF # ''Host: a:1 '')). \<forall>c.
      of_char c \<in> set key \<longrightarrow> toUpperCase [c] = [of_char c]" by blast
  with d m have "toUpperCase ''H'' = [of_char (CHR ''H'')]" by blast
  then have up: "toUpperCase ''H'' = code_units ''H''" by (simp add: code_units_def)
  from p1 p2 ci have v2: "parse_headers (status @ LF # ''Host: a:1 '') =
      parse_headers (status @ LF # ''HOST: a:1 '')" by simp
  show ?thesis
    using c1 c2 l1 u c3 c4 e v1 v2 d m up t n unfolding status_def by simp
qed

subsection \<open>The pattern of the MAC address\<close>

lemma starts_with_split: "starts_with p s \<Longrightarrow> s = p @ drop (length p) s"
  unfolding starts_with_def by (metis append_take_drop_id)

lemma macMatch_here_sound:
  assumes "macMatch_here s = Some m"
  shows "\<exists>ws post. wakeup_token s [] ws m post \<and> (post = [] \<or> \<not> is_hex_colon (hd post))"
proof -
  let ?rest = "drop (length ''WAKEUP:'') s"
  let ?ws = "takeWhile is_space ?rest"
  let ?r = "dropWhile is_space ?rest"
  let ?t = "drop (length ''MAC='') ?r"
  let ?post = "dropWhile is_hex_colon ?t"
  from assms have a: "starts_with ''WAKEUP:'' s" and b: "starts_with ''MAC='' ?r"
    and m: "m = takeWhile is_hex_colon ?t" and ne: "m \<noteq> []"
    by (auto simp: macMatch_here_def Let_def split: if_splits)
  from a have "s = ''WAKEUP:'' @ ?rest" by (rule starts_with_split)
  moreover have "?rest = ?ws @ ?r" by simp
  moreover from b have "?r = ''MAC='' @ ?t" by (rule starts_with_split)
  moreover have "?t = m @ ?post" by (simp add: m)
  ultimately have "s = [] @ ''WAKEUP:'' @ ?ws @ ''MAC='' @ m @ ?post" by simp
  moreover have "\<forall>c\<in>set ?ws. is_space c" by (auto dest: set_takeWhileD)
  moreover have "\<forall>c\<in>set m. is_hex_colon c" unfolding m by (auto dest: set_takeWhileD)
  moreover have "?post = [] \<or> \<not> is_hex_colon (hd ?post)" using hd_dropWhile by blast
  ultimately show ?thesis using ne unfolding wakeup_token_def by blast
qed

lemma macMatch_sound:
  "macMatch s = Some m \<Longrightarrow>
   \<exists>pre ws post. wakeup_token s pre ws m post \<and> (post = [] \<or> \<not> is_hex_colon (hd post))"
proof (induction s)
  case Nil
  from macMatch_here_sound[of "[]" m] Nil show ?case by auto
next
  case (Cons c cs)
  show ?case
  proof (cases "macMatch_here (c # cs)")
    case None
    with Cons.prems have "macMatch cs = Some m" by simp
    with Cons.IH obtain pre ws post where
      "wakeup_token cs pre ws m post" "post = [] \<or> \<not> is_hex_colon (hd post)" by blast
    then have "wakeup_token (c # cs) (c # pre) ws m post" by (simp add: wakeup_token_def)
    with \<open>post = [] \<or> \<not> is_hex_colon (hd post)\<close> show ?thesis by blast
  next
    case (Some m')
    with Cons.prems have "m' = m" by simp
    with Some macMatch_here_sound[of "c # cs" m] show ?thesis by blast
  qed
qed

lemma not_space_M: "\<not> is_space (CHR ''M'')"
  by (simp add: is_space_def ctrl_defs)

lemma macMatch_here_complete:
  assumes "wakeup_token s [] ws m post"
  shows "macMatch_here s \<noteq> None"
proof -
  from assms have s: "s = ''WAKEUP:'' @ ws @ ''MAC='' @ m @ post"
    and ws: "\<forall>c\<in>set ws. is_space c" and ne: "m \<noteq> []" and hx: "\<forall>c\<in>set m. is_hex_colon c"
    by (auto simp: wakeup_token_def)
  have a: "starts_with ''WAKEUP:'' s" by (simp add: s starts_with_def)
  have "drop (length ''WAKEUP:'') s = ws @ ''MAC='' @ m @ post" by (simp add: s)
  moreover have "dropWhile is_space (ws @ ''MAC='' @ m @ post) = ''MAC='' @ m @ post"
    using ws not_space_M by (simp add: dropWhile_append3)
  ultimately have r: "dropWhile is_space (drop (length ''WAKEUP:'') s) = ''MAC='' @ m @ post"
    by simp
  have b: "starts_with ''MAC='' (''MAC='' @ m @ post)" by (simp add: starts_with_def)
  have "takeWhile is_hex_colon (m @ post) \<noteq> []"
    using ne hx by (cases m) auto
  then show ?thesis
    using a b r by (simp add: macMatch_here_def Let_def)
qed

lemma macMatch_complete:
  "wakeup_token s pre ws m post \<Longrightarrow> macMatch s \<noteq> None"
proof (induction pre arbitrary: s)
  case Nil
  then have "macMatch_here s \<noteq> None" by (rule macMatch_here_complete)
  then show ?case by (cases s) (auto split: option.splits)
next
  case (Cons p pre)
  then obtain s' where s: "s = p # s'" and "wakeup_token s' pre ws m post"
    by (auto simp: wakeup_token_def)
  with Cons.IH have "macMatch s' \<noteq> None" by blast
  then show ?case unfolding s by (auto split: option.splits)
qed

lemma macMatch_None_iff:
  "macMatch s = None \<longleftrightarrow> \<not> (\<exists>pre ws m post. wakeup_token s pre ws m post)"
proof
  assume "macMatch s = None"
  then show "\<not> (\<exists>pre ws m post. wakeup_token s pre ws m post)"
    using macMatch_complete by blast
next
  assume n: "\<not> (\<exists>pre ws m post. wakeup_token s pre ws m post)"
  show "macMatch s = None"
  proof (rule ccontr)
    assume "macMatch s \<noteq> None"
    then obtain m where "macMatch s = Some m" by auto
    from macMatch_sound[OF this] n show False by blast
  qed
qed

subsection \<open>The stop condition of discovery\<close>








subsection \<open>The marker filter\<close>

text \<open>
  Claim C5. A datagram whose text does not contain \<open>Samsung\<close> leaves the list of
  devices as it was: the handler pushes nothing for it, the list collected from a
  sequence of datagrams is the one collected from those with the marker alone, and
  every record of the list comes from a datagram with the marker.
\<close>

theorem messages_without_marker_ignored:
  "(includes_str response ''Samsung'' \<longleftrightarrow> (\<exists>pre post. response = pre @ ''Samsung'' @ post))
   \<and> (\<not> includes_str response ''Samsung'' \<longrightarrow>
        on_message fetch_text response address devices = devices)
   \<and> collected fetch_text msgs =
       collected fetch_text (filter (\<lambda>(response, address). includes_str response ''Samsung'') msgs)
   \<and> set (collected fetch_text msgs) =
       (\<lambda>(response, address). message_device fetch_text response address) `
         {m \<in> set msgs. includes_str (fst m) ''Samsung''}"
proof -
  have "includes_str response ''Samsung'' \<longleftrightarrow> (\<exists>pre post. response = pre @ ''Samsung'' @ post)"
    by (rule includes_str_iff)
  moreover have "\<not> includes_str response ''Samsung'' \<longrightarrow>
        on_message fetch_text response address devices = devices"
    by (simp add: on_message_def)
  moreover have "collected fetch_text msgs =
       collected fetch_text (filter (\<lambda>(response, address). includes_str response ''Samsung'') msgs)"
    unfolding collected_def by (rule fold_on_message_filter)
  moreover have "set (collected fetch_text msgs) =
       (\<lambda>(response, address). message_device fetch_text response address) `
         {m \<in> set msgs. includes_str (fst m) ''Samsung''}"
    unfolding collected_def by (simp add: fold_on_message_set)
  ultimately show ?thesis by blast
qed

theorem messages_without_marker_ignored_witness:
  "\<not> includes_str ''SERVER: LG'' ''Samsung''
   \<and> on_message unreachable ''SERVER: LG'' ''10.0.0.3'' [] = []
   \<and> collected unreachable [(''SERVER: LG'', ''10.0.0.3'')] = []"
proof -
  have n: "\<not> includes_str ''SERVER: LG'' ''Samsung''" by (simp add: starts_with_def)
  note h = messages_without_marker_ignored[of "''SERVER: LG''" unreachable "''10.0.0.3''" "[]"
      "[(''SERVER: LG'', ''10.0.0.3'')]"]
  from h n have a: "on_message unreachable ''SERVER: LG'' ''10.0.0.3'' [] = []" by blast
  from h have "set (collected unreachable [(''SERVER: LG'', ''10.0.0.3'')]) =
       (\<lambda>(response, address). message_device unreachable response address) `
         {m \<in> set [(''SERVER: LG'', ''10.0.0.3'')]. includes_str (fst m) ''Samsung''}" by blast
  also have "{m \<in> set [(''SERVER: LG'', ''10.0.0.3'')]. includes_str (fst m) ''Samsung''} = {}"
    using n by auto
  finally have b: "collected unreachable [(''SERVER: LG'', ''10.0.0.3'')] = []" by simp
  show ?thesis using n a b by simp
qed

subsection \<open>The MAC address of a record\<close>

lemma mac_of_message:
  "mac (message_device fetch_text response address) =
     (case macMatch response of Some m \<Rightarrow> m | None \<Rightarrow> sentinel_mac)"
  by (simp add: message_device_def Let_def)

lemma wakeup_token_Cons:
  "wakeup_token (c # cs) (c # pre) ws m post \<longleftrightarrow> wakeup_token cs pre ws m post"
  by (simp add: wakeup_token_def)

lemma macMatch_leftmost:
  "macMatch s = Some m \<Longrightarrow> \<exists>pre ws post. leftmost_token s pre ws m post"
proof (induction s)
  case Nil
  then obtain ws post where "wakeup_token [] [] ws m post" "post = [] \<or> \<not> is_hex_colon (hd post)"
    using macMatch_here_sound[of "[]" m] by auto
  then have "leftmost_token [] [] ws m post" by (simp add: leftmost_token_def)
  then show ?case by blast
next
  case (Cons c cs)
  show ?case
  proof (cases "macMatch_here (c # cs)")
    case (Some m')
    with Cons.prems have "m' = m" by simp
    with Some obtain ws post where "wakeup_token (c # cs) [] ws m post"
      "post = [] \<or> \<not> is_hex_colon (hd post)"
      using macMatch_here_sound[of "c # cs" m] by auto
    then have "leftmost_token (c # cs) [] ws m post" by (simp add: leftmost_token_def)
    then show ?thesis by blast
  next
    case None
    with Cons.prems have "macMatch cs = Some m" by simp
    with Cons.IH obtain pre ws post where l: "leftmost_token cs pre ws m post" by blast
    have "leftmost_token (c # cs) (c # pre) ws m post"
      unfolding leftmost_token_def
    proof (intro conjI allI impI)
      show "wakeup_token (c # cs) (c # pre) ws m post"
        using l by (simp add: leftmost_token_def wakeup_token_Cons)
      show "post = [] \<or> \<not> is_hex_colon (hd post)"
        using l by (simp add: leftmost_token_def)
    next
      fix pre' ws' m' post'
      assume t: "wakeup_token (c # cs) pre' ws' m' post'"
      show "length (c # pre) \<le> length pre'"
      proof (cases pre')
        case Nil
        with t have "macMatch_here (c # cs) \<noteq> None" using macMatch_here_complete by blast
        with None show ?thesis by simp
      next
        case (Cons d pre'')
        with t have "d = c" by (simp add: wakeup_token_def)
        with t Cons have "wakeup_token cs pre'' ws' m' post'" by (simp add: wakeup_token_Cons)
        with l have "length pre \<le> length pre''" unfolding leftmost_token_def by blast
        with Cons show ?thesis by simp
      qed
    qed
    then show ?thesis by blast
  qed
qed

lemma run_unique:
  assumes "xs @ ys = xs' @ ys'" "\<forall>x\<in>set xs. P x" "\<forall>x\<in>set xs'. P x"
    "ys = [] \<or> \<not> P (hd ys)" "ys' = [] \<or> \<not> P (hd ys')"
  shows "xs = xs' \<and> ys = ys'"
proof -
  have a: "takeWhile P (xs @ ys) = xs"
    using assms(2,4) by (cases ys) (simp_all add: takeWhile_append2 takeWhile_tail)
  have b: "takeWhile P (xs' @ ys') = xs'"
    using assms(3,5) by (cases ys') (simp_all add: takeWhile_append2 takeWhile_tail)
  from a b assms(1) have "xs = xs'" by simp
  with assms(1) show ?thesis by simp
qed

lemma leftmost_token_unique:
  assumes "leftmost_token s pre ws m post" "leftmost_token s pre' ws' m' post'"
  shows "m = m'"
proof -
  from assms have t: "wakeup_token s pre ws m post" and t': "wakeup_token s pre' ws' m' post'"
    and e: "post = [] \<or> \<not> is_hex_colon (hd post)" and e': "post' = [] \<or> \<not> is_hex_colon (hd post')"
    by (simp_all add: leftmost_token_def)
  from assms t t' have len: "length pre = length pre'"
    unfolding leftmost_token_def by (meson le_antisym)
  from t t' have eq: "pre @ (''WAKEUP:'' @ ws @ ''MAC='' @ m @ post) =
      pre' @ (''WAKEUP:'' @ ws' @ ''MAC='' @ m' @ post')"
    unfolding wakeup_token_def by (elim conjE) (erule subst, assumption)
  have "(pre @ (''WAKEUP:'' @ ws @ ''MAC='' @ m @ post) =
      pre' @ (''WAKEUP:'' @ ws' @ ''MAC='' @ m' @ post')) =
      (pre = pre' \<and> ''WAKEUP:'' @ ws @ ''MAC='' @ m @ post = ''WAKEUP:'' @ ws' @ ''MAC='' @ m' @ post')"
    by (rule append_eq_append_conv) (simp add: len)
  with eq have "''WAKEUP:'' @ ws @ ''MAC='' @ m @ post = ''WAKEUP:'' @ ws' @ ''MAC='' @ m' @ post'"
    by blast
  then have r: "ws @ (''MAC='' @ m @ post) = ws' @ (''MAC='' @ m' @ post')" by simp
  have "ws = ws' \<and> ''MAC='' @ m @ post = ''MAC='' @ m' @ post'"
  proof (rule run_unique[OF r])
    show "\<forall>x\<in>set ws. is_space x" "\<forall>x\<in>set ws'. is_space x"
      using t t' by (simp_all add: wakeup_token_def)
    show "''MAC='' @ m @ post = [] \<or> \<not> is_space (hd (''MAC='' @ m @ post))"
      "''MAC='' @ m' @ post' = [] \<or> \<not> is_space (hd (''MAC='' @ m' @ post'))"
      using not_space_M by simp_all
  qed
  then have "m @ post = m' @ post'" by simp
  then have "m = m' \<and> post = post'"
  proof (rule run_unique)
    show "\<forall>x\<in>set m. is_hex_colon x" "\<forall>x\<in>set m'. is_hex_colon x"
      using t t' by (simp_all add: wakeup_token_def)
  qed (rule e, rule e')
  then show ?thesis by simp
qed

lemma macMatch_Some_iff:
  "macMatch s = Some m \<longleftrightarrow> (\<exists>pre ws post. leftmost_token s pre ws m post)"
proof
  assume "macMatch s = Some m"
  then show "\<exists>pre ws post. leftmost_token s pre ws m post" by (rule macMatch_leftmost)
next
  assume "\<exists>pre ws post. leftmost_token s pre ws m post"
  then obtain pre ws post where l: "leftmost_token s pre ws m post" by blast
  then have "macMatch s \<noteq> None"
    using macMatch_complete unfolding leftmost_token_def by blast
  then obtain m' where m': "macMatch s = Some m'" by auto
  then obtain pre' ws' post' where "leftmost_token s pre' ws' m' post'"
    using macMatch_leftmost by blast
  with l have "m = m'" by (rule leftmost_token_unique)
  with m' show "macMatch s = Some m" by simp
qed

text \<open>
  Claim C9, as amended. An accepted reply pushes one record, and its \<open>mac\<close> is the
  text that the pattern \<^verbatim>\<open>WAKEUP:\s*MAC=([0-9a-fA-F:]+)\<close> captures at its leftmost match
  in the reply, as it stands there: a run of hexadecimal digits and colons that is
  not empty and cannot be extended to the right, not brought to any canonical form.
  It is the sentinel \<open>00:00:00:00:00:00\<close> exactly when the pattern matches nowhere.
\<close>

theorem mac_is_matched_text:
  "(includes_str response ''Samsung'' \<longrightarrow>
      (\<exists>d. on_message fetch_text response address devices = devices @ [d]
         \<and> mac d = (case macMatch response of Some m \<Rightarrow> m | None \<Rightarrow> sentinel_mac)))
   \<and> (macMatch response = Some m \<longleftrightarrow> (\<exists>pre ws post. leftmost_token response pre ws m post))
   \<and> (macMatch response = None \<longleftrightarrow> \<not> (\<exists>pre ws m post. wakeup_token response pre ws m post))"
  using macMatch_Some_iff[of response m] macMatch_None_iff[of response]
  by (simp add: on_message_def mac_of_message)

theorem mac_is_matched_text_witness:
  "includes_str two_tokens ''Samsung''
   \<and> (\<exists>d. on_message unreachable two_tokens ''10.0.0.2'' [] = [d] \<and> mac d = ''aA:1'')
   \<and> (\<exists>pre ws post. leftmost_token two_tokens pre ws ''aA:1'' post)
   \<and> includes_str ''SERVER: Samsung'' ''Samsung''
   \<and> \<not> (\<exists>pre ws m post. wakeup_token ''SERVER: Samsung'' pre ws m post)
   \<and> (\<exists>d. on_message unreachable ''SERVER: Samsung'' ''10.0.0.2'' [] = [d] \<and> mac d = sentinel_mac)"
proof -
  have i: "includes_str two_tokens ''Samsung''"
    by (simp add: two_tokens_def starts_with_def)
  have e: "macMatch two_tokens = Some ''aA:1''"
    by (simp add: two_tokens_def macMatch_here_def starts_with_def is_space_def is_hex_colon_def ctrl_defs)
  note h = mac_is_matched_text[of two_tokens unreachable "''10.0.0.2''" "[]" "''aA:1''"]
  from h i obtain d where "on_message unreachable two_tokens ''10.0.0.2'' [] = [] @ [d]"
    "mac d = (case macMatch two_tokens of Some m \<Rightarrow> m | None \<Rightarrow> sentinel_mac)" by blast
  then have a: "\<exists>d. on_message unreachable two_tokens ''10.0.0.2'' [] = [d] \<and> mac d = ''aA:1''"
    unfolding e by simp
  from h e have l: "\<exists>pre ws post. leftmost_token two_tokens pre ws ''aA:1'' post" by blast
  have i2: "includes_str ''SERVER: Samsung'' ''Samsung''" by (simp add: starts_with_def)
  have n0: "macMatch ''SERVER: Samsung'' = None"
    by (simp add: macMatch_here_def starts_with_def)
  note h2 = mac_is_matched_text[of "''SERVER: Samsung''" unreachable "''10.0.0.2''" "[]" "[]"]
  from h2 n0 have n: "\<not> (\<exists>pre ws m post. wakeup_token ''SERVER: Samsung'' pre ws m post)" by blast
  from h2 i2 obtain d where "on_message unreachable ''SERVER: Samsung'' ''10.0.0.2'' [] = [] @ [d]"
    "mac d = (case macMatch ''SERVER: Samsung'' of Some m \<Rightarrow> m | None \<Rightarrow> sentinel_mac)" by blast
  then have b: "\<exists>d. on_message unreachable ''SERVER: Samsung'' ''10.0.0.2'' [] = [d] \<and> mac d = sentinel_mac"
    unfolding n0 by simp
  from i a l i2 n b show ?thesis by blast
qed

text \<open>
  Claim C9 as stated fails: the address is not normalized. A reply that gives its MAC
  address without colons gets a record whose \<open>mac\<close> has no colon, and a MAC token in
  mixed case and of any length is kept as it is.
\<close>

theorem mac_not_normalized:
  "mac (message_device unreachable ''Samsung WAKEUP: MAC=aabbccddeeff'' ''10.0.0.2'') = ''aabbccddeeff''
   \<and> CHR '':'' \<notin> set (mac (message_device unreachable ''Samsung WAKEUP: MAC=aabbccddeeff'' ''10.0.0.2''))
   \<and> mac (message_device unreachable ''Samsung WAKEUP: MAC=aA:1'' ''10.0.0.2'') = ''aA:1''"
  by (simp add: message_device_def macMatch_here_def starts_with_def is_space_def is_hex_colon_def ctrl_defs)

subsection \<open>Name resolution\<close>

lemma resolve_name_fetch_failed:
  "fetch_text location = Threw \<Longrightarrow> obj (code_units ''LOCATION'') = Some location \<Longrightarrow>
   resolve_name fetch_text obj address = Some address"
  by (simp add: resolve_name_def)

lemma friendlyName_unreachable:
  "friendlyName (message_device unreachable response address) = Some address"
  by (simp add: message_device_def resolve_name_def unreachable_def Let_def split: option.splits)

text \<open>
  Claim C2, evaluated where the code departs from it. A reply with the marker and a
  \<open>LOCATION\<close> header, whose descriptor is fetched and has no \<^verbatim>\<open>friendlyName\<close>
  element: line 80 stores \<^verbatim>\<open>undefined\<close> in \<open>friendlyName\<close>, not the sender's
  address \<open>10.0.0.2\<close>. (When the fetch throws, the address is kept:
  \<open>resolve_name_fetch_failed\<close>.)
\<close>

theorem friendlyName_undefined_without_element:
  "includes_str (''SERVER: Samsung'' @ LF # ''LOCATION: http://a/d'') ''Samsung''
   \<and> parse_headers (''SERVER: Samsung'' @ LF # ''LOCATION: http://a/d'') (code_units ''LOCATION'') =
       Some ''http://a/d''
   \<and> friendlyName_match ''<root></root>'' = None
   \<and> friendlyName (message_device nameless (''SERVER: Samsung'' @ LF # ''LOCATION: http://a/d'') ''10.0.0.2'') = None
   \<and> friendlyName (message_device nameless (''SERVER: Samsung'' @ LF # ''LOCATION: http://a/d'') ''10.0.0.2'') \<noteq> Some ''10.0.0.2''"
proof -
  define r where "r = ''SERVER: Samsung'' @ LF # ''LOCATION: http://a/d''"
  have i: "includes_str r ''Samsung''"
    by (simp add: r_def starts_with_def)
  have p: "parse_headers r (code_units ''LOCATION'') = Some ''http://a/d''"
    by (simp add: r_def parse_headers_def parse_lines_def header_line_def substring_def substring_from_def
        trim_def is_space_def toUpperCase_def upper_defs ctrl_defs)
  have f: "friendlyName_match ''<root></root>'' = None"
    by (simp add: friendlyName_here_def starts_with_ci_def canonicalize_def upper_defs)
  have n: "nameless ''http://a/d'' = Returned ''<root></root>''"
    by (simp add: nameless_def)
  have "resolve_name nameless (parse_headers r) ''10.0.0.2'' = None"
    unfolding resolve_name_def p by (simp add: n f del: friendlyName_match.simps)
  then have u: "friendlyName (message_device nameless r ''10.0.0.2'') = None"
    by (simp add: message_device_def Let_def)
  then have ne: "friendlyName (message_device nameless r ''10.0.0.2'') \<noteq> Some ''10.0.0.2''"
    by simp
  from i p f u ne show ?thesis unfolding r_def by blast
qed

subsection \<open>The cache merge\<close>

lemma macMatch_hex: "macMatch response = Some m \<Longrightarrow> m \<noteq> [] \<and> (\<forall>c\<in>set m. is_hex_colon c)"
  using macMatch_sound[of response m] by (auto simp: wakeup_token_def)

lemma proto_key_not_hex: "\<not> (\<forall>c\<in>set proto_key. is_hex_colon c)"
  by (simp add: proto_key_def is_hex_colon_def)

lemma sentinel_not_proto: "sentinel_mac \<noteq> proto_key"
  by (simp add: sentinel_mac_def proto_key_def)

lemma message_device_mac_not_proto:
  "mac (message_device fetch_text response address) \<noteq> proto_key"
proof (cases "macMatch response")
  case None
  then show ?thesis by (simp add: mac_of_message sentinel_not_proto)
next
  case (Some m)
  then have "\<forall>c\<in>set m. is_hex_colon c" using macMatch_hex by blast
  with proto_key_not_hex have "m \<noteq> proto_key" by blast
  with Some show ?thesis by (simp add: mac_of_message)
qed

lemma collected_mac_not_proto:
  "\<forall>d\<in>set (collected fetch_text msgs). mac d \<noteq> proto_key"
  unfolding collected_def by (auto simp: fold_on_message_set message_device_mac_not_proto)

lemma merge_Obj: "merge (Obj ps) devices = Inr (Obj (fold put devices ps))"
  by (induction devices arbitrary: ps) (simp_all add: put_def)

lemma map_of_put:
  "map_of (put d ps) k =
    (if mac d = proto_key \<and> map_of ps proto_key = None then map_of ps k
     else if k = mac d then Some (device_value d) else map_of ps k)"
  by (auto simp: put_def set_own_def update_conv')

lemma map_of_fold_put:
  "map_of (fold put devices ps) k =
    (if k = proto_key \<and> map_of ps k = None then None
     else (case find (\<lambda>d. mac d = k) (rev devices) of
             Some d \<Rightarrow> Some (device_value d)
           | None \<Rightarrow> map_of ps k))"
proof (induction devices arbitrary: k rule: rev_induct)
  case Nil
  then show ?case by auto
next
  case (snoc d devices)
  let ?R = "fold put devices ps"
  have p: "map_of ?R proto_key = None \<longleftrightarrow> map_of ps proto_key = None"
    unfolding snoc.IH[of proto_key] by (simp split: option.splits)
  have step: "map_of (fold put (devices @ [d]) ps) k =
    (if mac d = proto_key \<and> map_of ps proto_key = None then map_of ?R k
     else if k = mac d then Some (device_value d) else map_of ?R k)"
    by (simp only: fold_append fold_simps comp_apply map_of_put p)
  show ?case
  proof (cases "mac d = k")
    case True
    then show ?thesis unfolding step snoc.IH[of k] by (simp split: option.splits)
  next
    case False
    then show ?thesis unfolding step snoc.IH[of k] by (auto split: option.splits)
  qed
qed

lemma proto_absent_fold_put:
  "map_of (fold put devices ps) proto_key = None \<longleftrightarrow> map_of ps proto_key = None"
  by (auto simp: map_of_fold_put split: option.splits)

lemma find_None_mac: "k \<notin> mac ` set devices \<Longrightarrow> find (\<lambda>d. mac d = k) (rev devices) = None"
  by (auto simp: find_None_iff)

lemma fold_put_frame:
  "k \<notin> mac ` set devices \<Longrightarrow> map_of (fold put devices ps) k = map_of ps k"
  by (auto simp: map_of_fold_put find_None_mac)

lemma present_fold_put:
  "map_of ps k \<noteq> None \<Longrightarrow> map_of (fold put devices ps) k \<noteq> None"
  by (auto simp: map_of_fold_put split: option.splits)

lemma update_swap_present:
  "k \<noteq> k' \<Longrightarrow> map_of ps k = Some y \<Longrightarrow>
   AList.update k v (AList.update k' v' ps) = AList.update k' v' (AList.update k v ps)"
  by (induction ps) (auto split: if_splits)

lemma put_put_same: "mac d = mac d' \<Longrightarrow> put d (put d' ps) = put d ps"
  by (auto simp: put_def set_own_def update_conv')

lemma put_put_swap:
  assumes "mac d \<noteq> mac d'" "map_of ps (mac d) \<noteq> None"
  shows "put d (put d' ps) = put d' (put d ps)"
proof -
  from assms(2) obtain y where y: "map_of ps (mac d) = Some y" by auto
  have sw: "AList.update (mac d) (device_value d) (AList.update (mac d') (device_value d') ps) =
        AList.update (mac d') (device_value d') (AList.update (mac d) (device_value d) ps)"
    using assms(1) y by (rule update_swap_present)
  show ?thesis
    using assms y sw by (auto simp: put_def set_own_def update_conv')
qed

lemma present_put: "map_of ps k \<noteq> None \<Longrightarrow> map_of (put d ps) k \<noteq> None"
  by (simp add: map_of_put)

lemma fold_put_absorb:
  "map_of ps (mac d) \<noteq> None \<Longrightarrow>
   fold put devices (put d ps) =
     (if mac d \<in> mac ` set devices then fold put devices ps else put d (fold put devices ps))"
proof (induction devices arbitrary: ps)
  case Nil
  then show ?case by simp
next
  case (Cons e devices)
  show ?case
  proof (cases "mac e = mac d")
    case True
    then show ?thesis by (simp add: put_put_same)
  next
    case False
    then have "put e (put d ps) = put d (put e ps)"
      using Cons.prems put_put_swap[of d e ps] by simp
    moreover have "map_of (put e ps) (mac d) \<noteq> None"
      using Cons.prems by (rule present_put)
    ultimately show ?thesis
      using Cons.IH[of "put e ps"] False by auto
  qed
qed

lemma put_noop:
  "map_of ps (mac d) = Some (device_value d) \<Longrightarrow> put d ps = ps"
  by (auto simp: put_def set_own_def update_triv)

lemma fold_put_idem: "fold put devices (fold put devices ps) = fold put devices ps"
proof (induction devices arbitrary: ps)
  case Nil
  then show ?case by simp
next
  case (Cons d devices)
  let ?qs = "put d ps"
  let ?R = "fold put devices ?qs"
  have IH: "fold put devices ?R = ?R" by (rule Cons.IH)
  have "fold put devices (put d ?R) = ?R"
  proof (cases "mac d = proto_key \<and> map_of ps proto_key = None")
    case True
    then have "?qs = ps" by (simp add: put_def set_own_def)
    moreover from True have "map_of ?R proto_key = None"
      using proto_absent_fold_put[of devices ?qs] \<open>?qs = ps\<close> by simp
    then have "put d ?R = ?R" using True by (simp add: put_def set_own_def)
    ultimately show ?thesis using IH by simp
  next
    case False
    then have q: "map_of ?qs (mac d) = Some (device_value d)"
      by (auto simp: map_of_put)
    then have "map_of ?R (mac d) \<noteq> None" by (simp add: present_fold_put)
    then have "fold put devices (put d ?R) =
       (if mac d \<in> mac ` set devices then fold put devices ?R else put d (fold put devices ?R))"
      by (rule fold_put_absorb)
    also have "\<dots> = (if mac d \<in> mac ` set devices then ?R else put d ?R)"
      by (simp add: IH)
    also have "\<dots> = ?R"
    proof (cases "mac d \<in> mac ` set devices")
      case True
      then show ?thesis by simp
    next
      case False
      then have "map_of ?R (mac d) = map_of ?qs (mac d)" by (rule fold_put_frame)
      with q have "put d ?R = ?R" by (simp add: put_noop)
      then show ?thesis by simp
    qed
    finally show ?thesis .
  qed
  then show ?case by simp
qed

lemma json_of_props:
  "map_of ps k = Some v \<Longrightarrow> json_of v = Some j \<Longrightarrow>
   map_of (List.map_filter (\<lambda>(k, j). map_option (Pair k) j) (map (map_prod id json_of) ps)) k = Some j"
  by (induction ps) (auto simp: List.map_filter_simps split: option.splits if_splits)

lemma map_of_in_values: "map_of ps k = Some v \<Longrightarrow> v \<in> set (map snd ps)"
  by (force dest: map_of_SomeD)


lemma tv_not_index: "array_index ''AA:BB'' = None"
  by (simp add: array_index_def is_digit_def)

lemma load_Obj: "load (Returned (Obj ps)) = Obj ps"
  by (simp add: load_def typeof_def)

lemma load_empty:
  "parsed = Threw \<or> (\<exists>v. parsed = Returned v \<and> typeof v \<noteq> ''object'') \<Longrightarrow> load parsed = Obj []"
  by (auto simp: load_def)

subsection \<open>The cache claims\<close>

text \<open>
  Claim C1, evaluated where the code departs from it. The guard of line 126 resets
  \<open>result\<close> when \<^verbatim>\<open>typeof result\<close> is not \<^verbatim>\<open>'object'\<close>, and that is \<^verbatim>\<open>'object'\<close> for an
  array and for \<^verbatim>\<open>null\<close>. A cache file \<^verbatim>\<open>[]\<close> loads as the array, not as the empty
  mapping: the discovered set is returned but the file is written as \<^verbatim>\<open>[]\<close> again,
  where an empty cache gives a file with the set; the elements of a cache file \<^verbatim>\<open>[1]\<close>
  are returned among the devices. A cache file \<^verbatim>\<open>null\<close> makes the function throw a
  \<^verbatim>\<open>TypeError\<close>, at line 131 or, with no device found, at line 136. (For a file that
  is missing, unreadable or no JSON, and for a JSON number, string or boolean, the
  cache is the empty mapping: \<open>load_empty\<close>.)
\<close>

theorem cache_array_or_null_not_empty:
  "load (Returned (Arr [] [])) = Arr [] []
   \<and> getCachedSamsungDevices Threw [tv] True =
       (Some (Obj [(''AA:BB'', device_value tv)]), Inr [device_value tv])
   \<and> getCachedSamsungDevices (Returned (Arr [] [])) [tv] True =
       (Some (Arr [] []), Inr [device_value tv])
   \<and> getCachedSamsungDevices (Returned (Arr [Some (Num 1)] [])) [tv] True =
       (Some (Arr [Some (Num 1)] []), Inr [Num 1, device_value tv])
   \<and> load (Returned Null) = Null
   \<and> getCachedSamsungDevices (Returned Null) [tv] True = (None, Inl TypeError)
   \<and> getCachedSamsungDevices (Returned Null) [] True = (Some Null, Inl TypeError)"
proof -
  have j: "json_of (device_value tv) = Some (device_value tv)"
    by (simp add: device_value_def tv_def List.map_filter_simps)
  have m: "mac tv = ''AA:BB''" by (simp add: tv_def)
  have "getCachedSamsungDevices Threw [tv] True =
       (Some (Obj [(''AA:BB'', device_value tv)]), Inr [device_value tv])"
    by (simp add: getCachedSamsungDevices_def load_def typeof_def m j set_own_def proto_key_def
        List.map_filter_simps)
  moreover have "getCachedSamsungDevices (Returned (Arr [] [])) [tv] True =
       (Some (Arr [] []), Inr [device_value tv])"
    by (simp add: getCachedSamsungDevices_def load_def typeof_def m tv_not_index set_own_def
        proto_key_def List.map_filter_simps)
  moreover have "getCachedSamsungDevices (Returned (Arr [Some (Num 1)] [])) [tv] True =
       (Some (Arr [Some (Num 1)] []), Inr [Num 1, device_value tv])"
    by (simp add: getCachedSamsungDevices_def load_def typeof_def m tv_not_index set_own_def
        proto_key_def List.map_filter_simps)
  moreover have "getCachedSamsungDevices (Returned Null) [tv] True = (None, Inl TypeError)"
    by (simp add: getCachedSamsungDevices_def load_def typeof_def)
  moreover have "getCachedSamsungDevices (Returned Null) [] True = (Some Null, Inl TypeError)"
    by (simp add: getCachedSamsungDevices_def load_def typeof_def)
  moreover have "load (Returned (Arr [] [])) = Arr [] []" "load (Returned Null) = Null"
    by (simp_all add: load_def typeof_def)
  ultimately show ?thesis by blast
qed

text \<open>
  Claim C3. Merging a fresh discovery list into a cache mapping stores, under each
  MAC address of the list, the record of the last device of the list with that
  address, whole: the stored value is the device's record and owes nothing to the
  entry that was there. Every other key keeps its entry. This holds for lists with no
  record under the key \<^verbatim>\<open>__proto__\<close>, and the list collected from any datagrams is
  one: its MAC addresses are made of hexadecimal digits and colons. In particular the cache \<open>{AA:BB: old}\<close> merged with one fresh record
  for \<open>AA:BB\<close> is \<open>{AA:BB: fresh}\<close>, and of two fresh records the later wins.
\<close>

theorem merge_overwrites:
  "((\<forall>d\<in>set fresh. mac d \<noteq> proto_key) \<longrightarrow>
     (\<exists>ps'. merge (Obj ps) fresh = Inr (Obj ps')
        \<and> (\<forall>k. map_of ps' k =
              (case find (\<lambda>d. mac d = k) (rev fresh) of
                 Some d \<Rightarrow> Some (device_value d)
               | None \<Rightarrow> map_of ps k))))
   \<and> (\<forall>d\<in>set (collected fetch_text msgs). mac d \<noteq> proto_key)
   \<and> merge (Obj [(''AA:BB'', old_tv)]) [tv] = Inr (Obj [(''AA:BB'', device_value tv)])
   \<and> merge (Obj [(''AA:BB'', old_tv)]) [tv, tv_moved] = Inr (Obj [(''AA:BB'', device_value tv_moved)])"
proof -
  have "(\<forall>d\<in>set fresh. mac d \<noteq> proto_key) \<longrightarrow>
     (\<forall>k. map_of (fold put fresh ps) k =
              (case find (\<lambda>d. mac d = k) (rev fresh) of
                 Some d \<Rightarrow> Some (device_value d)
               | None \<Rightarrow> map_of ps k))"
  proof (intro impI allI)
    fix k
    assume a: "\<forall>d\<in>set fresh. mac d \<noteq> proto_key"
    show "map_of (fold put fresh ps) k =
              (case find (\<lambda>d. mac d = k) (rev fresh) of
                 Some d \<Rightarrow> Some (device_value d)
               | None \<Rightarrow> map_of ps k)"
    proof (cases "k = proto_key \<and> map_of ps k = None")
      case True
      with a have "find (\<lambda>d. mac d = k) (rev fresh) = None" by (auto simp: find_None_iff)
      with True show ?thesis by (simp add: map_of_fold_put)
    next
      case False
      then show ?thesis unfolding map_of_fold_put[of fresh ps k] by auto
    qed
  qed
  moreover have "merge (Obj [(''AA:BB'', old_tv)]) [tv] = Inr (Obj [(''AA:BB'', device_value tv)])"
    by (simp add: tv_def set_own_def proto_key_def)
  moreover have "merge (Obj [(''AA:BB'', old_tv)]) [tv, tv_moved] =
      Inr (Obj [(''AA:BB'', device_value tv_moved)])"
    by (simp add: tv_def tv_moved_def set_own_def proto_key_def)
  ultimately show ?thesis
    using collected_mac_not_proto[of fetch_text msgs] by (simp add: merge_Obj)
qed

theorem merge_overwrites_witness:
  "mac tv \<noteq> proto_key \<and> mac tv_moved \<noteq> proto_key
   \<and> (\<exists>ps'. merge (Obj [(''AA:BB'', old_tv)]) [tv, tv_moved] = Inr (Obj ps')
          \<and> map_of ps' ''AA:BB'' = Some (device_value tv_moved))"
proof -
  have a: "\<forall>d\<in>set [tv, tv_moved]. mac d \<noteq> proto_key"
    by (simp add: tv_def tv_moved_def proto_key_def)
  have f: "find (\<lambda>d. mac d = ''AA:BB'') (rev [tv, tv_moved]) = Some tv_moved"
    by (simp add: tv_def tv_moved_def)
  from merge_overwrites[of "[tv, tv_moved]" "[(''AA:BB'', old_tv)]" unreachable "[]"] a
  obtain ps' where m: "merge (Obj [(''AA:BB'', old_tv)]) [tv, tv_moved] = Inr (Obj ps')"
    and l: "\<forall>k. map_of ps' k =
              (case find (\<lambda>d. mac d = k) (rev [tv, tv_moved]) of
                 Some d \<Rightarrow> Some (device_value d)
               | None \<Rightarrow> map_of [(''AA:BB'', old_tv)] k)" by blast
  from l have "map_of ps' ''AA:BB'' = Some (device_value tv_moved)"
    unfolding f by (simp only: f option.case)
  moreover have "mac tv \<noteq> proto_key \<and> mac tv_moved \<noteq> proto_key"
    using a by simp
  ultimately show ?thesis using m by blast
qed

text \<open>
  Claim C4. Merging is idempotent: merging a fresh list into a cache mapping succeeds,
  and merging the same list into the result again gives the same mapping: the value
  of \<open>result\<close> does not change.
\<close>

theorem merge_idempotent:
  "\<exists>result. merge (Obj ps) fresh = Inr result \<and> merge result fresh = Inr result"
  by (simp add: merge_Obj fold_put_idem)

theorem merge_idempotent_witness:
  "merge (Obj []) [tv] = Inr (Obj [(''AA:BB'', device_value tv)])
   \<and> merge (Obj [(''AA:BB'', device_value tv)]) [tv] = Inr (Obj [(''AA:BB'', device_value tv)])"
proof -
  have e: "merge (Obj []) [tv] = Inr (Obj [(''AA:BB'', device_value tv)])"
    by (simp add: tv_def set_own_def proto_key_def)
  from merge_idempotent[of "[]" "[tv]"] obtain result where
    "merge (Obj []) [tv] = Inr result" "merge result [tv] = Inr result" by blast
  with e show ?thesis by simp
qed

text \<open>
  Claim C10. An entry of the loaded cache mapping whose key is the MAC address of no
  fresh record is in the merged mapping with the same value; the function returns
  that value in its list, and the text written to the cache file has the entry, with
  the serialisation of the same value.
\<close>

theorem merge_frame:
  "map_of ps k = Some v \<and> k \<notin> mac ` set fresh \<longrightarrow>
     (\<exists>ps'. merge (Obj ps) fresh = Inr (Obj ps') \<and> map_of ps' k = Some v
        \<and> (\<exists>text. getCachedSamsungDevices (Returned (Obj ps)) fresh True =
                     (Some (Obj text), Inr (map snd ps'))
              \<and> v \<in> set (map snd ps')
              \<and> (\<forall>j. json_of v = Some j \<longrightarrow> map_of text k = Some j)))"
proof (intro impI)
  assume a: "map_of ps k = Some v \<and> k \<notin> mac ` set fresh"
  let ?ps' = "fold put fresh ps"
  let ?text = "List.map_filter (\<lambda>(k, j). map_option (Pair k) j) (map (map_prod id json_of) ?ps')"
  have m: "merge (Obj ps) fresh = Inr (Obj ?ps')" by (rule merge_Obj)
  from a have l: "map_of ?ps' k = Some v" by (simp add: fold_put_frame)
  have g: "getCachedSamsungDevices (Returned (Obj ps)) fresh True =
                     (Some (Obj ?text), Inr (map snd ?ps'))"
    by (simp add: getCachedSamsungDevices_def load_Obj m)
  from l have i: "v \<in> set (map snd ?ps')" by (rule map_of_in_values)
  have j: "\<forall>j. json_of v = Some j \<longrightarrow> map_of ?text k = Some j"
  proof (intro allI impI)
    fix j
    assume "json_of v = Some j"
    with l show "map_of ?text k = Some j" by (rule json_of_props)
  qed
  show "\<exists>ps'. merge (Obj ps) fresh = Inr (Obj ps') \<and> map_of ps' k = Some v
        \<and> (\<exists>text. getCachedSamsungDevices (Returned (Obj ps)) fresh True =
                     (Some (Obj text), Inr (map snd ps'))
              \<and> v \<in> set (map snd ps')
              \<and> (\<forall>j. json_of v = Some j \<longrightarrow> map_of text k = Some j))"
  proof (intro exI conjI)
    show "merge (Obj ps) fresh = Inr (Obj ?ps')" by (rule m)
    show "map_of ?ps' k = Some v" by (rule l)
    show "getCachedSamsungDevices (Returned (Obj ps)) fresh True =
                     (Some (Obj ?text), Inr (map snd ?ps'))" by (rule g)
    show "v \<in> set (map snd ?ps')" by (rule i)
    show "\<forall>j. json_of v = Some j \<longrightarrow> map_of ?text k = Some j" by (rule j)
  qed
qed

theorem merge_frame_witness:
  "map_of [(''11:22'', old_tv)] ''11:22'' = Some old_tv \<and> ''11:22'' \<notin> mac ` set [tv]
   \<and> json_of old_tv = Some old_tv
   \<and> (\<exists>ps' text. getCachedSamsungDevices (Returned (Obj [(''11:22'', old_tv)])) [tv] True =
                     (Some (Obj text), Inr (map snd ps'))
         \<and> map_of ps' ''11:22'' = Some old_tv \<and> old_tv \<in> set (map snd ps')
         \<and> map_of text ''11:22'' = Some old_tv)"
proof -
  have a: "map_of [(''11:22'', old_tv)] ''11:22'' = Some old_tv" by simp
  have b: "''11:22'' \<notin> mac ` set [tv]" by (simp add: tv_def)
  have c: "json_of old_tv = Some old_tv" by (simp add: old_tv_def List.map_filter_simps)
  from merge_frame[of "[(''11:22'', old_tv)]" "''11:22''" old_tv "[tv]"] a b c
  show ?thesis by blast
qed

subsection \<open>The key decoder\<close>

text \<open>
  Claim C6. The decoder follows the decoding table: a read of the three bytes
  ESC [ A gives arrow up, and B, C, D give down, right and left; a read of the single
  byte ESC gives home; \<open>q\<close> powers the set off and quits; every other row of the table
  gives its key; and a frame that is in no row, such as \<open>z\<close>, sends nothing to the
  remote and goes on.
\<close>

theorem decoder_table:
  "loop_pass (ESC # ''[A'') 3 = Continue [sendKey KEY_UP]
   \<and> loop_pass (ESC # ''[B'') 3 = Continue [sendKey KEY_DOWN]
   \<and> loop_pass (ESC # ''[C'') 3 = Continue [sendKey KEY_RIGHT]
   \<and> loop_pass (ESC # ''[D'') 3 = Continue [sendKey KEY_LEFT]
   \<and> loop_pass [ESC, NUL, NUL] 1 = Continue [sendKey KEY_HOME]
   \<and> loop_pass [CHR ''q'', NUL, NUL] 1 = Exit [sendKeys [KEY_POWER]]
   \<and> loop_pass [CHR ''z'', NUL, NUL] 1 = Continue []
   \<and> map (\<lambda>c. dispatch [c]) ''0123456789''
       = map (\<lambda>k. Continue [sendKey k])
           [KEY_0, KEY_1, KEY_2, KEY_3, KEY_4, KEY_5, KEY_6, KEY_7, KEY_8, KEY_9]
   \<and> map dispatch [[DEL], [CR], ''p'', ''+'', ''-'', ''w'', ''s'']
       = map (\<lambda>k. Continue [sendKey k])
           [KEY_BACK_MHP, KEY_ENTER, KEY_PLAY, KEY_VOLUP, KEY_VOLDOWN, KEY_CHUP, KEY_CHDOWN]
   \<and> dispatch [ETX] = Exit [] \<and> dispatch ''f'' = Exit []
   \<and> (\<forall>key. key \<notin> set mapped_keys \<longrightarrow> dispatch key = Continue [])"
  by (simp add: loop_pass_def read_key_def dispatch_def mapped_keys_def ctrl_defs)

theorem decoder_table_witness:
  "''z'' \<notin> set mapped_keys \<and> dispatch ''z'' = Continue []"
  using decoder_table by (simp add: mapped_keys_def ctrl_defs)

end
